theory Spec2Isabelle
  imports Complex_Main "HOL-Library.Word"
begin

unbundle bit_operations_syntax

section \<open>Numbers, outcomes and the node store\<close>

text \<open>
  JavaScript numbers are modelled as exact rationals: rounding, \<open>NaN\<close> and the
  infinities are outside the model (the two places where the source starts a variable
  at an infinity use \<open>None\<close> for it). A read past the end of the coordinate array,
  which gives \<open>undefined\<close> in the source, ends the model with \<open>UndefinedRead\<close> where
  the value would be stored in a node. A property access on \<open>null\<close> or \<open>undefined\<close>
  is \<open>TypeError\<close>. A loop over the node links may run forever on an ill-formed
  structure, so every such loop takes fuel and \<open>None\<close> means that no result was
  produced.
\<close>

datatype error = TypeError | UndefinedRead

type_synonym 'a outcome = "(error + 'a) option"

abbreviation Return :: "'a \<Rightarrow> 'a outcome" where
  "Return v \<equiv> Some (Inr v)"

abbreviation Throw :: "error \<Rightarrow> 'a outcome" where
  "Throw e \<equiv> Some (Inl e)"

definition andThen :: "'a outcome \<Rightarrow> ('a \<Rightarrow> 'b outcome) \<Rightarrow> 'b outcome" where
  "andThen m f = (case m of None \<Rightarrow> None | Some (Inl e) \<Rightarrow> Some (Inl e) | Some (Inr v) \<Rightarrow> f v)"

text \<open>
  The \<open>Node\<close> objects live in a store addressed by allocation order; the store is kept
  field by field, so \<open>next_of h p\<close> is the source's \<open>p.next\<close>. The links \<open>prev\<close> and
  \<open>next\<close> are \<open>null\<close> in the source only between \<open>new Node\<close> and the assignments
  that follow it inside \<open>insertNode\<close> and \<open>splitPolygon\<close>, where they are not read;
  the model therefore keeps them as plain addresses. \<open>z\<close>, \<open>prevZ\<close> and \<open>nextZ\<close> are
  nullable.
\<close>

type_synonym addr = nat

record heap =
  i_of :: "addr \<Rightarrow> nat"
  x_of :: "addr \<Rightarrow> rat"
  y_of :: "addr \<Rightarrow> rat"
  prev_of :: "addr \<Rightarrow> addr"
  next_of :: "addr \<Rightarrow> addr"
  z_of :: "addr \<Rightarrow> int option"
  prevZ_of :: "addr \<Rightarrow> addr option"
  nextZ_of :: "addr \<Rightarrow> addr option"
  steiner_of :: "addr \<Rightarrow> bool"
  allocated :: nat

definition empty_heap :: heap where
  "empty_heap = \<lparr> i_of = (\<lambda>_. 0), x_of = (\<lambda>_. 0), y_of = (\<lambda>_. 0),
     prev_of = (\<lambda>a. a), next_of = (\<lambda>a. a), z_of = (\<lambda>_. None),
     prevZ_of = (\<lambda>_. None), nextZ_of = (\<lambda>_. None), steiner_of = (\<lambda>_. False),
     allocated = 0 \<rparr>"

text \<open>\<open>function Node(i, x, y)\<close>: the new object's address and the store holding it.\<close>

definition Node :: "nat \<Rightarrow> rat \<Rightarrow> rat \<Rightarrow> heap \<Rightarrow> addr \<times> heap" where
  "Node i x y h =
     (let p = allocated h in
      (p, h\<lparr> i_of := (i_of h)(p := i), x_of := (x_of h)(p := x), y_of := (y_of h)(p := y),
            z_of := (z_of h)(p := None), prevZ_of := (prevZ_of h)(p := None),
            nextZ_of := (nextZ_of h)(p := None), steiner_of := (steiner_of h)(p := False),
            allocated := Suc p \<rparr>))"

section \<open>Geometric predicates\<close>

text \<open>\<open>area(p, q, r)\<close>: signed area of a triangle.\<close>

definition area :: "heap \<Rightarrow> addr \<Rightarrow> addr \<Rightarrow> addr \<Rightarrow> rat" where
  "area h p q r =
     (y_of h q - y_of h p) * (x_of h r - x_of h q) - (x_of h q - x_of h p) * (y_of h r - y_of h q)"

text \<open>\<open>equals(p1, p2)\<close>: check if two points are equal.\<close>

definition equals :: "heap \<Rightarrow> addr \<Rightarrow> addr \<Rightarrow> bool" where
  "equals h p1 p2 \<longleftrightarrow> x_of h p1 = x_of h p2 \<and> y_of h p1 = y_of h p2"

definition sign :: "rat \<Rightarrow> int" where
  "sign num = (if num > 0 then 1 else if num < 0 then - 1 else 0)"

text \<open>\<open>onSegment(p, q, r)\<close>: for collinear points, whether q lies on segment pr.\<close>

definition onSegment :: "heap \<Rightarrow> addr \<Rightarrow> addr \<Rightarrow> addr \<Rightarrow> bool" where
  "onSegment h p q r \<longleftrightarrow>
     x_of h q \<le> max (x_of h p) (x_of h r) \<and> x_of h q \<ge> min (x_of h p) (x_of h r) \<and>
     y_of h q \<le> max (y_of h p) (y_of h r) \<and> y_of h q \<ge> min (y_of h p) (y_of h r)"

text \<open>\<open>intersects(p1, q1, p2, q2)\<close>: check if two segments intersect.\<close>

definition intersects :: "heap \<Rightarrow> addr \<Rightarrow> addr \<Rightarrow> addr \<Rightarrow> addr \<Rightarrow> bool" where
  "intersects h p1 q1 p2 q2 =
     (let o1 = sign (area h p1 q1 p2); o2 = sign (area h p1 q1 q2);
          o3 = sign (area h p2 q2 p1); o4 = sign (area h p2 q2 q1) in
      if o1 \<noteq> o2 \<and> o3 \<noteq> o4 then True
      else if o1 = 0 \<and> onSegment h p1 p2 q1 then True
      else if o2 = 0 \<and> onSegment h p1 q2 q1 then True
      else if o3 = 0 \<and> onSegment h p2 p1 q2 then True
      else if o4 = 0 \<and> onSegment h p2 q1 q2 then True
      else False)"

text \<open>\<open>pointInTriangle\<close>: check if a point lies within a convex triangle.\<close>

definition pointInTriangle ::
  "rat \<Rightarrow> rat \<Rightarrow> rat \<Rightarrow> rat \<Rightarrow> rat \<Rightarrow> rat \<Rightarrow> rat \<Rightarrow> rat \<Rightarrow> bool" where
  "pointInTriangle ax ay bx by cx cy px py \<longleftrightarrow>
     (cx - px) * (ay - py) - (ax - px) * (cy - py) \<ge> 0 \<and>
     (ax - px) * (by - py) - (bx - px) * (ay - py) \<ge> 0 \<and>
     (bx - px) * (cy - py) - (cx - px) * (by - py) \<ge> 0"

text \<open>\<open>locallyInside(a, b)\<close>: check if a polygon diagonal is locally inside the polygon.\<close>

definition locallyInside :: "heap \<Rightarrow> addr \<Rightarrow> addr \<Rightarrow> bool" where
  "locallyInside h a b =
     (if area h (prev_of h a) a (next_of h a) < 0
      then area h a b (next_of h a) \<ge> 0 \<and> area h a (prev_of h a) b \<ge> 0
      else area h a b (prev_of h a) < 0 \<or> area h a (next_of h a) b < 0)"

text \<open>\<open>sectorContainsSector(m, p)\<close>.\<close>

definition sectorContainsSector :: "heap \<Rightarrow> addr \<Rightarrow> addr \<Rightarrow> bool" where
  "sectorContainsSector h m p \<longleftrightarrow>
     area h (prev_of h m) m (prev_of h p) < 0 \<and> area h (next_of h p) m (next_of h m) < 0"

section \<open>Node list primitives\<close>

text \<open>\<open>insertNode(i, x, y, lst)\<close>: create a node and link it after \<open>lst\<close>, if any.\<close>

definition insertNode :: "nat \<Rightarrow> rat \<Rightarrow> rat \<Rightarrow> addr option \<Rightarrow> heap \<Rightarrow> addr \<times> heap" where
  "insertNode i x y lst h =
     (case Node i x y h of (p, h0) \<Rightarrow>
        (case lst of
           None \<Rightarrow> (p, h0\<lparr> prev_of := (prev_of h0)(p := p), next_of := (next_of h0)(p := p) \<rparr>)
         | Some l \<Rightarrow>
             (let h1 = h0\<lparr> next_of := (next_of h0)(p := next_of h0 l) \<rparr>;
                  h2 = h1\<lparr> prev_of := (prev_of h1)(p := l) \<rparr>;
                  h3 = h2\<lparr> prev_of := (prev_of h2)(next_of h2 l := p) \<rparr>;
                  h4 = h3\<lparr> next_of := (next_of h3)(l := p) \<rparr>
              in (p, h4))))"

text \<open>\<open>removeNode(p)\<close>: the four assignments in the source's order.\<close>

definition removeNode :: "heap \<Rightarrow> addr \<Rightarrow> heap" where
  "removeNode h p =
     (let h1 = h\<lparr> prev_of := (prev_of h)(next_of h p := prev_of h p) \<rparr>;
          h2 = h1\<lparr> next_of := (next_of h1)(prev_of h1 p := next_of h1 p) \<rparr>;
          h3 = (case prevZ_of h2 p of None \<Rightarrow> h2
                | Some pz \<Rightarrow> h2\<lparr> nextZ_of := (nextZ_of h2)(pz := nextZ_of h2 p) \<rparr>);
          h4 = (case nextZ_of h3 p of None \<Rightarrow> h3
                | Some nz \<Rightarrow> h3\<lparr> prevZ_of := (prevZ_of h3)(nz := prevZ_of h3 p) \<rparr>)
      in h4)"

text \<open>
  \<open>splitPolygon(a, b)\<close>: link two polygon vertices with a bridge; returns \<open>b2\<close>.
\<close>

definition splitPolygon :: "heap \<Rightarrow> addr \<Rightarrow> addr \<Rightarrow> addr \<times> heap" where
  "splitPolygon h a b =
     (case Node (i_of h a) (x_of h a) (y_of h a) h of (a2, ha) \<Rightarrow>
      case Node (i_of ha b) (x_of ha b) (y_of ha b) ha of (b2, hb) \<Rightarrow>
        (let an = next_of hb a; bp = prev_of hb b;
             h1 = hb\<lparr> next_of := (next_of hb)(a := b) \<rparr>;
             h2 = h1\<lparr> prev_of := (prev_of h1)(b := a) \<rparr>;
             h3 = h2\<lparr> next_of := (next_of h2)(a2 := an) \<rparr>;
             h4 = h3\<lparr> prev_of := (prev_of h3)(an := a2) \<rparr>;
             h5 = h4\<lparr> next_of := (next_of h4)(b2 := a2) \<rparr>;
             h6 = h5\<lparr> prev_of := (prev_of h5)(a2 := b2) \<rparr>;
             h7 = h6\<lparr> next_of := (next_of h6)(bp := b2) \<rparr>;
             h8 = h7\<lparr> prev_of := (prev_of h7)(b2 := bp) \<rparr>
         in (b2, h8)))"

section \<open>Ring builder\<close>

text \<open>
  Modelled from the spec: the signed polygon area helper \<open>getPolygonSignedArea\<close> of
  \<open>./polygon-utils\<close> is imported by the source and is not part of it. The spec
  describes it as taking the flat coordinate array and a (start, end, stride) span and
  returning a signed scalar whose sign encodes the winding, negative meaning that the span
  is treated as clockwise. The functions below take that helper as the parameter \<open>sa\<close>;
  this definition is the shoelace sum with the sign for which the square of the spec's
  first concrete case has a negative area (0 for a span that is not a whole number of
  vertices inside the array), and is used for concrete inputs only.
\<close>

function getPolygonSignedArea_loop ::
  "rat list \<Rightarrow> nat \<Rightarrow> nat \<Rightarrow> nat \<Rightarrow> nat \<Rightarrow> rat \<Rightarrow> rat" where
  "getPolygonSignedArea_loop points i j fin dm acc =
     (if i < fin \<and> 0 < dm then
        getPolygonSignedArea_loop points (i + dm) i fin dm
          (acc + (points ! i - points ! j) * (points ! (i + 1) + points ! (j + 1)))
      else acc)"
  by pat_completeness auto
termination
  by (relation "measure (\<lambda>(points, i, j, fin, dm, acc). fin - i)") auto

declare getPolygonSignedArea_loop.simps [simp del]

definition getPolygonSignedArea :: "rat list \<Rightarrow> nat \<Rightarrow> nat \<Rightarrow> nat \<Rightarrow> rat" where
  "getPolygonSignedArea points start fin dm =
     (if dm < 2 \<or> fin \<le> start \<or> length points < fin \<or> (fin - start) mod dm \<noteq> 0 then 0
      else getPolygonSignedArea_loop points start (fin - dm) fin dm 0 / 2)"

text \<open>
  The two \<open>for\<close> loops of \<open>linkedList\<close>. With \<open>dm = 0\<close> the source's loop counter
  never moves, so the loop never ends. The counter of the downward loop goes below zero
  in the source, so it is an integer here.
\<close>

function linkedList_up ::
  "rat list \<Rightarrow> nat \<Rightarrow> nat \<Rightarrow> nat \<Rightarrow> addr option \<Rightarrow> heap \<Rightarrow> (addr option \<times> heap) outcome" where
  "linkedList_up data i fin dm lst h =
     (if i < fin then
        (if dm = 0 then None
         else if i + 1 < length data then
           (case insertNode i (data ! i) (data ! (i + 1)) lst h of
              (p, h') \<Rightarrow> linkedList_up data (i + dm) fin dm (Some p) h')
         else Throw UndefinedRead)
      else Return (lst, h))"
  by pat_completeness auto
termination
  by (relation "measure (\<lambda>(data, i, fin, dm, lst, h). fin - i)") auto

declare linkedList_up.simps [simp del]

function linkedList_down ::
  "rat list \<Rightarrow> int \<Rightarrow> nat \<Rightarrow> nat \<Rightarrow> addr option \<Rightarrow> heap \<Rightarrow> (addr option \<times> heap) outcome" where
  "linkedList_down data i start dm lst h =
     (if i \<ge> int start then
        (if dm = 0 then None
         else if nat i + 1 < length data then
           (case insertNode (nat i) (data ! nat i) (data ! (nat i + 1)) lst h of
              (p, h') \<Rightarrow> linkedList_down data (i - int dm) start dm (Some p) h')
         else Throw UndefinedRead)
      else Return (lst, h))"
  by pat_completeness auto
termination
  by (relation "measure (\<lambda>(data, i, start, dm, lst, h). nat (i - int start + 1))") auto

declare linkedList_down.simps [simp del]

text \<open>
  \<open>linkedList(data, start, end, dm, clockwise, area)\<close>: create a circular doubly linked
  list from polygon points in the specified winding order. \<open>area = None\<close> is the source's
  \<open>area === undefined\<close>.
\<close>

definition linkedList ::
  "(rat list \<Rightarrow> nat \<Rightarrow> nat \<Rightarrow> nat \<Rightarrow> rat) \<Rightarrow> rat list \<Rightarrow> nat \<Rightarrow> nat \<Rightarrow> nat \<Rightarrow> bool \<Rightarrow> rat option
     \<Rightarrow> heap \<Rightarrow> (addr option \<times> heap) outcome" where
  "linkedList sa data start fin dm clockwise area_arg h =
     (let a = (case area_arg of None \<Rightarrow> sa data start fin dm | Some v \<Rightarrow> v) in
      andThen
        (if clockwise = (a < 0) then linkedList_up data start fin dm None h
         else linkedList_down data (int fin - int dm) start dm None h)
        (\<lambda>(lst, h1).
           case lst of
             None \<Rightarrow> Return (None, h1)
           | Some l \<Rightarrow>
               if equals h1 l (next_of h1 l)
               then (let h2 = removeNode h1 l in Return (Some (next_of h2 l), h2))
               else Return (Some l, h1)))"

section \<open>Filtering\<close>

text \<open>
  \<open>filterPoints(start, end?)\<close>: eliminate colinear or duplicate points. The loop is
  \<open>do { ... } while (again || p !== end)\<close>; in the removing branch \<open>again\<close> is true,
  unless the ring has shrunk to one node, which breaks out.
\<close>

fun filterPoints_loop :: "nat \<Rightarrow> heap \<Rightarrow> addr \<Rightarrow> addr \<Rightarrow> (addr \<times> heap) outcome" where
  "filterPoints_loop 0 h p e = None"
| "filterPoints_loop (Suc n) h p e =
     (if \<not> steiner_of h p \<and> (equals h p (next_of h p) \<or> area h (prev_of h p) p (next_of h p) = 0)
      then (let h1 = removeNode h p; p1 = prev_of h1 p in
            if p1 = next_of h1 p1 then Return (p1, h1)
            else filterPoints_loop n h1 p1 p1)
      else (let p1 = next_of h p in
            if p1 \<noteq> e then filterPoints_loop n h p1 e else Return (e, h)))"

definition filterPoints ::
  "nat \<Rightarrow> heap \<Rightarrow> addr option \<Rightarrow> addr option \<Rightarrow> (addr option \<times> heap) outcome" where
  "filterPoints fuel h start fin =
     (case start of
        None \<Rightarrow> Return (None, h)
      | Some s \<Rightarrow>
          andThen (filterPoints_loop fuel h s (case fin of None \<Rightarrow> s | Some e \<Rightarrow> e))
            (\<lambda>(e, h1). Return (Some e, h1)))"

section \<open>Ear tests\<close>

text \<open>
  The test both ear checks apply to another node \<open>p\<close>: inside the candidate triangle
  and with \<open>area(p.prev, p, p.next) >= 0\<close>.
\<close>

definition blocks :: "heap \<Rightarrow> addr \<Rightarrow> addr \<Rightarrow> bool" where
  "blocks h ear p \<longleftrightarrow>
     pointInTriangle (x_of h (prev_of h ear)) (y_of h (prev_of h ear)) (x_of h ear) (y_of h ear)
       (x_of h (next_of h ear)) (y_of h (next_of h ear)) (x_of h p) (y_of h p) \<and>
     area h (prev_of h p) p (next_of h p) \<ge> 0"

fun isEar_loop :: "nat \<Rightarrow> heap \<Rightarrow> addr \<Rightarrow> addr \<Rightarrow> bool outcome" where
  "isEar_loop 0 h ear p = None"
| "isEar_loop (Suc n) h ear p =
     (if p \<noteq> prev_of h ear then
        (if blocks h ear p then Return False else isEar_loop n h ear (next_of h p))
      else Return True)"

text \<open>\<open>isEar(ear)\<close>: check whether a polygon node forms a valid ear with adjacent nodes.\<close>

definition isEar :: "nat \<Rightarrow> heap \<Rightarrow> addr \<Rightarrow> bool outcome" where
  "isEar fuel h ear =
     (if area h (prev_of h ear) ear (next_of h ear) \<ge> 0 then Return False
      else isEar_loop fuel h ear (next_of h (next_of h ear)))"

text \<open>
  \<open>zOrder(x, y, minX, minY, invSize)\<close>. The bitwise operators of the source convert
  their operands to 32-bit integers (the fraction is dropped, the rest is taken modulo
  \<open>2^32\<close>) and give a signed 32-bit result.
\<close>

definition toInt32 :: "rat \<Rightarrow> 32 word" where
  "toInt32 r = word_of_int (if r \<ge> 0 then \<lfloor>r\<rfloor> else \<lceil>r\<rceil>)"

definition spreadBits :: "32 word \<Rightarrow> 32 word" where
  "spreadBits v =
     (let v1 = (v OR push_bit 8 v) AND 0x00ff00ff;
          v2 = (v1 OR push_bit 4 v1) AND 0x0f0f0f0f;
          v3 = (v2 OR push_bit 2 v2) AND 0x33333333;
          v4 = (v3 OR push_bit 1 v3) AND 0x55555555
      in v4)"

definition zOrder :: "rat \<Rightarrow> rat \<Rightarrow> rat \<Rightarrow> rat \<Rightarrow> rat \<Rightarrow> int" where
  "zOrder x y minX minY invSize =
     (let x1 = 32767 * (x - minX) * invSize;
          y1 = 32767 * (y - minY) * invSize
      in sint (spreadBits (toInt32 x1) OR push_bit 1 (spreadBits (toInt32 y1))))"

text \<open>A \<open>null\<close> key compares as the number 0.\<close>

definition zval :: "heap \<Rightarrow> addr \<Rightarrow> int" where
  "zval h p = (case z_of h p of None \<Rightarrow> 0 | Some v \<Rightarrow> v)"

definition blocksHashed :: "heap \<Rightarrow> addr \<Rightarrow> addr \<Rightarrow> bool" where
  "blocksHashed h ear p \<longleftrightarrow> p \<noteq> prev_of h ear \<and> p \<noteq> next_of h ear \<and> blocks h ear p"

text \<open>
  The three loops of \<open>isEarHashed\<close>. The first gives \<open>None\<close> when the source returns
  false from inside it, and the two cursors otherwise.
\<close>

fun isEarHashed_both ::
  "nat \<Rightarrow> heap \<Rightarrow> addr \<Rightarrow> int \<Rightarrow> int \<Rightarrow> addr option \<Rightarrow> addr option
     \<Rightarrow> (addr option \<times> addr option) option outcome" where
  "isEarHashed_both 0 h ear minZ maxZ p n = None"
| "isEarHashed_both (Suc k) h ear minZ maxZ p n =
     (case p of
        None \<Rightarrow> Return (Some (p, n))
      | Some pa \<Rightarrow>
          if \<not> zval h pa \<ge> minZ then Return (Some (p, n))
          else (case n of
                  None \<Rightarrow> Return (Some (p, n))
                | Some na \<Rightarrow>
                    if \<not> zval h na \<le> maxZ then Return (Some (p, n))
                    else if blocksHashed h ear pa then Return None
                    else if blocksHashed h ear na then Return None
                    else isEarHashed_both k h ear minZ maxZ (prevZ_of h pa) (nextZ_of h na)))"

fun isEarHashed_down :: "nat \<Rightarrow> heap \<Rightarrow> addr \<Rightarrow> int \<Rightarrow> addr option \<Rightarrow> bool outcome" where
  "isEarHashed_down 0 h ear minZ p = None"
| "isEarHashed_down (Suc k) h ear minZ p =
     (case p of
        None \<Rightarrow> Return True
      | Some pa \<Rightarrow>
          if \<not> zval h pa \<ge> minZ then Return True
          else if blocksHashed h ear pa then Return False
          else isEarHashed_down k h ear minZ (prevZ_of h pa))"

fun isEarHashed_up :: "nat \<Rightarrow> heap \<Rightarrow> addr \<Rightarrow> int \<Rightarrow> addr option \<Rightarrow> bool outcome" where
  "isEarHashed_up 0 h ear maxZ n = None"
| "isEarHashed_up (Suc k) h ear maxZ n =
     (case n of
        None \<Rightarrow> Return True
      | Some na \<Rightarrow>
          if \<not> zval h na \<le> maxZ then Return True
          else if blocksHashed h ear na then Return False
          else isEarHashed_up k h ear maxZ (nextZ_of h na))"

definition isEarHashed :: "nat \<Rightarrow> heap \<Rightarrow> addr \<Rightarrow> rat \<Rightarrow> rat \<Rightarrow> rat \<Rightarrow> bool outcome" where
  "isEarHashed fuel h ear minX minY invSize =
     (let a = prev_of h ear; b = ear; c = next_of h ear in
      if area h a b c \<ge> 0 then Return False
      else
        (let ax = x_of h a; bx = x_of h b; cx = x_of h c;
             ay = y_of h a; by = y_of h b; cy = y_of h c;
             minTX = (if ax < bx then (if ax < cx then ax else cx) else if bx < cx then bx else cx);
             minTY = (if ay < by then (if ay < cy then ay else cy) else if by < cy then by else cy);
             maxTX = (if ax > bx then (if ax > cx then ax else cx) else if bx > cx then bx else cx);
             maxTY = (if ay > by then (if ay > cy then ay else cy) else if by > cy then by else cy);
             minZ = zOrder minTX minTY minX minY invSize;
             maxZ = zOrder maxTX maxTY minX minY invSize
         in andThen (isEarHashed_both fuel h ear minZ maxZ (prevZ_of h ear) (nextZ_of h ear))
              (\<lambda>r. case r of
                      None \<Rightarrow> Return False
                    | Some (p, n) \<Rightarrow>
                        andThen (isEarHashed_down fuel h ear minZ p)
                          (\<lambda>ok. if \<not> ok then Return False
                                 else isEarHashed_up fuel h ear maxZ n))))"

section \<open>Spatial index\<close>

text \<open>
  \<open>sortLinked(list)\<close>: Simon Tatham's linked list merge sort. \<open>sortLinked_skip\<close> is the
  \<open>for\<close> loop that steps \<open>q\<close> forward, \<open>sortLinked_merge\<close> the inner \<open>while\<close> loop,
  \<open>sortLinked_pass\<close> the loop \<open>while (p)\<close> and \<open>sortLinked_loop\<close> the outer
  \<open>do ... while (numMerges > 1)\<close>.
\<close>

fun sortLinked_skip :: "nat \<Rightarrow> heap \<Rightarrow> addr \<Rightarrow> nat \<Rightarrow> addr option \<times> nat" where
  "sortLinked_skip 0 h q pSize = (Some q, pSize)"
| "sortLinked_skip (Suc k) h q pSize =
     (case nextZ_of h q of
        None \<Rightarrow> (None, pSize + 1)
      | Some q1 \<Rightarrow> sortLinked_skip k h q1 (pSize + 1))"

definition sortLinked_link :: "heap \<Rightarrow> addr \<Rightarrow> addr option \<Rightarrow> addr option \<Rightarrow> heap \<times> addr option" where
  "sortLinked_link h e lst tail =
     (let h1 = (case tail of None \<Rightarrow> h | Some t \<Rightarrow> h\<lparr> nextZ_of := (nextZ_of h)(t := Some e) \<rparr>);
          lst1 = (case tail of None \<Rightarrow> Some e | Some t \<Rightarrow> lst);
          h2 = h1\<lparr> prevZ_of := (prevZ_of h1)(e := tail) \<rparr>
      in (h2, lst1))"

function sortLinked_merge ::
  "heap \<Rightarrow> addr option \<Rightarrow> nat \<Rightarrow> addr option \<Rightarrow> nat \<Rightarrow> addr option \<Rightarrow> addr option
     \<Rightarrow> (heap \<times> addr option \<times> addr option \<times> addr option) outcome" where
  "sortLinked_merge h p pSize q qSize lst tail =
     (if pSize > 0 \<or> (qSize > 0 \<and> q \<noteq> None) then
        (if pSize \<noteq> 0 \<and> (qSize = 0 \<or> q = None) then
           (case p of
              None \<Rightarrow> Throw TypeError
            | Some e \<Rightarrow>
                (case sortLinked_link h e lst tail of
                   (h1, lst1) \<Rightarrow> sortLinked_merge h1 (nextZ_of h e) (pSize - 1) q qSize lst1 (Some e)))
         else
           (case q of
              None \<Rightarrow> Throw TypeError
            | Some qa \<Rightarrow>
                if pSize \<noteq> 0 \<and> p = None then Throw TypeError
                else if pSize \<noteq> 0 \<and> zval h (the p) \<le> zval h qa then
                  (case sortLinked_link h (the p) lst tail of
                     (h1, lst1) \<Rightarrow>
                       sortLinked_merge h1 (nextZ_of h (the p)) (pSize - 1) q qSize lst1 p)
                else
                  (case sortLinked_link h qa lst tail of
                     (h1, lst1) \<Rightarrow>
                       sortLinked_merge h1 p pSize (nextZ_of h qa) (qSize - 1) lst1 (Some qa))))
      else Return (h, q, lst, tail))"
  by pat_completeness auto
termination
  by (relation "measure (\<lambda>(h, p, pSize, q, qSize, lst, tail). pSize + qSize)") auto

declare sortLinked_merge.simps [simp del]

fun sortLinked_pass ::
  "nat \<Rightarrow> heap \<Rightarrow> addr option \<Rightarrow> nat \<Rightarrow> addr option \<Rightarrow> addr option \<Rightarrow> nat
     \<Rightarrow> (heap \<times> addr option \<times> addr option \<times> nat) outcome" where
  "sortLinked_pass 0 h p inSize lst tail numMerges = None"
| "sortLinked_pass (Suc n) h p inSize lst tail numMerges =
     (case p of
        None \<Rightarrow> Return (h, lst, tail, numMerges)
      | Some pa \<Rightarrow>
          (case sortLinked_skip inSize h pa 0 of
             (q, pSize) \<Rightarrow>
               andThen (sortLinked_merge h p pSize q inSize lst tail)
                 (\<lambda>(h1, q1, lst1, tail1).
                    sortLinked_pass n h1 q1 inSize lst1 tail1 (numMerges + 1))))"

fun sortLinked_loop :: "nat \<Rightarrow> heap \<Rightarrow> addr option \<Rightarrow> nat \<Rightarrow> (addr option \<times> heap) outcome" where
  "sortLinked_loop 0 h lst inSize = None"
| "sortLinked_loop (Suc n) h lst inSize =
     andThen (sortLinked_pass n h lst inSize None None 0)
       (\<lambda>(h1, lst1, tail1, numMerges).
          case tail1 of
            None \<Rightarrow> Throw TypeError
          | Some t \<Rightarrow>
              (let h2 = h1\<lparr> nextZ_of := (nextZ_of h1)(t := None) \<rparr> in
               if numMerges > 1 then sortLinked_loop n h2 lst1 (inSize * 2)
               else Return (lst1, h2)))"

definition sortLinked :: "nat \<Rightarrow> heap \<Rightarrow> addr \<Rightarrow> (addr option \<times> heap) outcome" where
  "sortLinked fuel h lst = sortLinked_loop fuel h (Some lst) 1"

text \<open>\<open>indexCurve(start, minX, minY, invSize)\<close>: interlink polygon nodes in z-order.\<close>

fun indexCurve_loop :: "nat \<Rightarrow> heap \<Rightarrow> addr \<Rightarrow> addr \<Rightarrow> rat \<Rightarrow> rat \<Rightarrow> rat \<Rightarrow> heap outcome" where
  "indexCurve_loop 0 h p start minX minY invSize = None"
| "indexCurve_loop (Suc n) h p start minX minY invSize =
     (let h1 = (if z_of h p = None
                then h\<lparr> z_of := (z_of h)(p := Some (zOrder (x_of h p) (y_of h p) minX minY invSize)) \<rparr>
                else h);
          h2 = h1\<lparr> prevZ_of := (prevZ_of h1)(p := Some (prev_of h1 p)) \<rparr>;
          h3 = h2\<lparr> nextZ_of := (nextZ_of h2)(p := Some (next_of h2 p)) \<rparr>;
          p1 = next_of h3 p
      in if p1 \<noteq> start then indexCurve_loop n h3 p1 start minX minY invSize else Return h3)"

definition indexCurve :: "nat \<Rightarrow> heap \<Rightarrow> addr \<Rightarrow> rat \<Rightarrow> rat \<Rightarrow> rat \<Rightarrow> heap outcome" where
  "indexCurve fuel h start minX minY invSize =
     andThen (indexCurve_loop fuel h start start minX minY invSize)
       (\<lambda>h1. case prevZ_of h1 start of
               None \<Rightarrow> Throw TypeError
             | Some pz \<Rightarrow>
                 (let h2 = h1\<lparr> nextZ_of := (nextZ_of h1)(pz := None) \<rparr>;
                      h3 = h2\<lparr> prevZ_of := (prevZ_of h2)(start := None) \<rparr>
                  in andThen (sortLinked fuel h3 start) (\<lambda>(l, h4). Return h4)))"

section \<open>Diagonals\<close>

text \<open>\<open>intersectsPolygon(a, b)\<close>: check if a polygon diagonal intersects any polygon segments.\<close>

fun intersectsPolygon_loop :: "nat \<Rightarrow> heap \<Rightarrow> addr \<Rightarrow> addr \<Rightarrow> addr \<Rightarrow> bool outcome" where
  "intersectsPolygon_loop 0 h a b p = None"
| "intersectsPolygon_loop (Suc n) h a b p =
     (if i_of h p \<noteq> i_of h a \<and> i_of h (next_of h p) \<noteq> i_of h a \<and>
         i_of h p \<noteq> i_of h b \<and> i_of h (next_of h p) \<noteq> i_of h b \<and>
         intersects h p (next_of h p) a b
      then Return True
      else (let p1 = next_of h p in
            if p1 \<noteq> a then intersectsPolygon_loop n h a b p1 else Return False))"

definition intersectsPolygon :: "nat \<Rightarrow> heap \<Rightarrow> addr \<Rightarrow> addr \<Rightarrow> bool outcome" where
  "intersectsPolygon fuel h a b = intersectsPolygon_loop fuel h a b a"

text \<open>
  \<open>middleInside(a, b)\<close>: check if the middle point of a polygon diagonal is inside the
  polygon.
\<close>

fun middleInside_loop :: "nat \<Rightarrow> heap \<Rightarrow> addr \<Rightarrow> rat \<Rightarrow> rat \<Rightarrow> addr \<Rightarrow> bool \<Rightarrow> bool outcome" where
  "middleInside_loop 0 h a px py p inside = None"
| "middleInside_loop (Suc n) h a px py p inside =
     (let pn = next_of h p;
          inside1 =
            (if (y_of h p > py) \<noteq> (y_of h pn > py) \<and> y_of h pn \<noteq> y_of h p \<and>
                px < ((x_of h pn - x_of h p) * (py - y_of h p)) / (y_of h pn - y_of h p) + x_of h p
             then \<not> inside else inside)
      in if pn \<noteq> a then middleInside_loop n h a px py pn inside1 else Return inside1)"

definition middleInside :: "nat \<Rightarrow> heap \<Rightarrow> addr \<Rightarrow> addr \<Rightarrow> bool outcome" where
  "middleInside fuel h a b =
     middleInside_loop fuel h a ((x_of h a + x_of h b) / 2) ((y_of h a + y_of h b) / 2) a False"

text \<open>
  \<open>isValidDiagonal(a, b)\<close>: check if a diagonal between two polygon nodes is valid. The
  conjunctions and the disjunction are evaluated left to right and stop early, as in the
  source.
\<close>

definition isValidDiagonal :: "nat \<Rightarrow> heap \<Rightarrow> addr \<Rightarrow> addr \<Rightarrow> bool outcome" where
  "isValidDiagonal fuel h a b =
     (if \<not> (i_of h (next_of h a) \<noteq> i_of h b \<and> i_of h (prev_of h a) \<noteq> i_of h b) then Return False
      else
        andThen (intersectsPolygon fuel h a b)
          (\<lambda>crossing.
             if crossing then Return False
             else
               andThen
                 (if locallyInside h a b \<and> locallyInside h b a
                  then andThen (middleInside fuel h a b)
                         (\<lambda>mid. Return (mid \<and>
                            (area h (prev_of h a) a (prev_of h b) \<noteq> 0 \<or> area h a (prev_of h b) b \<noteq> 0)))
                  else Return False)
                 (\<lambda>visible.
                    if visible then Return True
                    else Return (equals h a b \<and> area h (prev_of h a) a (next_of h a) > 0 \<and>
                                 area h (prev_of h b) b (next_of h b) > 0))))"

section \<open>Ear-clipping engine\<close>

text \<open>What the source pushes for a node: \<open>p.i / dim\<close>.\<close>

definition vertexIndex :: "heap \<Rightarrow> nat \<Rightarrow> addr \<Rightarrow> rat" where
  "vertexIndex h dm p = of_nat (i_of h p) / of_nat dm"

text \<open>
  \<open>cureLocalIntersections(start, triangles, dim)\<close>: go through all polygon nodes and cure
  small local self-intersections.
\<close>

fun cureLocalIntersections_loop ::
  "nat \<Rightarrow> heap \<Rightarrow> rat list \<Rightarrow> addr \<Rightarrow> addr \<Rightarrow> nat \<Rightarrow> (addr \<times> heap \<times> rat list) outcome" where
  "cureLocalIntersections_loop 0 h triangles p start dm = None"
| "cureLocalIntersections_loop (Suc n) h triangles p start dm =
     (let a = prev_of h p; b = next_of h (next_of h p) in
      if \<not> equals h a b \<and> intersects h a p (next_of h p) b \<and> locallyInside h a b \<and> locallyInside h b a
      then
        (let triangles1 = triangles @ [vertexIndex h dm a, vertexIndex h dm p, vertexIndex h dm b];
             h1 = removeNode h p;
             h2 = removeNode h1 (next_of h1 p);
             p1 = next_of h2 b
         in if p1 \<noteq> b then cureLocalIntersections_loop n h2 triangles1 p1 b dm
            else Return (p1, h2, triangles1))
      else
        (let p1 = next_of h p in
         if p1 \<noteq> start then cureLocalIntersections_loop n h triangles p1 start dm
         else Return (p1, h, triangles)))"

definition cureLocalIntersections ::
  "nat \<Rightarrow> heap \<Rightarrow> rat list \<Rightarrow> addr option \<Rightarrow> nat \<Rightarrow> (addr option \<times> heap \<times> rat list) outcome" where
  "cureLocalIntersections fuel h triangles start dm =
     (case start of
        None \<Rightarrow> Throw TypeError
      | Some s \<Rightarrow>
          andThen (cureLocalIntersections_loop fuel h triangles s s dm)
            (\<lambda>(p, h1, triangles1).
               andThen (filterPoints fuel h1 (Some p) None)
                 (\<lambda>(r, h2). Return (r, h2, triangles1))))"

text \<open>
  The search of \<open>splitEarcut\<close> for a valid diagonal: the two nested loops, giving the
  first pair \<open>(a, b)\<close> at which the source enters the body of its \<open>if\<close>, or \<open>None\<close>
  when the loops run to their end.
\<close>

fun splitEarcut_inner :: "nat \<Rightarrow> heap \<Rightarrow> addr \<Rightarrow> addr \<Rightarrow> addr option outcome" where
  "splitEarcut_inner 0 h a b = None"
| "splitEarcut_inner (Suc n) h a b =
     (if b \<noteq> prev_of h a then
        andThen (if i_of h a \<noteq> i_of h b then isValidDiagonal n h a b else Return False)
          (\<lambda>found. if found then Return (Some b) else splitEarcut_inner n h a (next_of h b))
      else Return None)"

fun splitEarcut_outer :: "nat \<Rightarrow> heap \<Rightarrow> addr \<Rightarrow> addr \<Rightarrow> (addr \<times> addr) option outcome" where
  "splitEarcut_outer 0 h a start = None"
| "splitEarcut_outer (Suc n) h a start =
     andThen (splitEarcut_inner n h a (next_of h (next_of h a)))
       (\<lambda>r. case r of
               Some b \<Rightarrow> Return (Some (a, b))
             | None \<Rightarrow>
                 (let a1 = next_of h a in
                  if a1 \<noteq> start then splitEarcut_outer n h a1 start else Return None))"

text \<open>
  \<open>invSize\<close> is \<open>undefined\<close> (\<open>None\<close>) when \<open>earcut\<close> has not computed a bounding box;
  the source tests it for truthiness. \<open>minX\<close> and \<open>minY\<close> are read only when \<open>invSize\<close>
  is truthy. \<open>pass\<close> is 0 where the source leaves it out.
\<close>

definition truthy :: "rat option \<Rightarrow> bool" where
  "truthy v = (case v of None \<Rightarrow> False | Some r \<Rightarrow> r \<noteq> 0)"

definition numberOf :: "rat option \<Rightarrow> rat" where
  "numberOf v = (case v of None \<Rightarrow> 0 | Some r \<Rightarrow> r)"

text \<open>
  \<open>earcutLinked\<close> (main ear slicing loop which triangulates a polygon given as a linked
  list) and \<open>splitEarcut\<close> (try splitting polygon into two and triangulate them
  independently) call each other. The three entries of that recursion are the source's
  \<open>earcutLinked\<close>, the \<open>while\<close> loop inside it with its variables \<open>ear\<close> and \<open>stop\<close>,
  and \<open>splitEarcut\<close>; \<open>engine\<close> runs one of them, with the arguments that change
  collected in \<open>call\<close> and \<open>dim\<close>, \<open>minX\<close>, \<open>minY\<close>, \<open>invSize\<close> passed along unchanged.
\<close>

datatype call =
    EarcutLinked heap "rat list" "addr option" nat
  | EarcutLinked_loop heap "rat list" addr addr nat
  | SplitEarcut heap "rat list" addr

primrec engine ::
  "nat \<Rightarrow> nat \<Rightarrow> rat \<Rightarrow> rat \<Rightarrow> rat option \<Rightarrow> call \<Rightarrow> (heap \<times> rat list) outcome" where
  "engine 0 dm minX minY invSize c = None"
| "engine (Suc n) dm minX minY invSize c =
     (case c of
        EarcutLinked h triangles ear pass \<Rightarrow>
          (case ear of
             None \<Rightarrow> Return (h, triangles)
           | Some e \<Rightarrow>
               andThen (if pass = 0 \<and> truthy invSize
                        then indexCurve n h e minX minY (numberOf invSize) else Return h)
                 (\<lambda>h1. engine n dm minX minY invSize (EarcutLinked_loop h1 triangles e e pass)))
      | EarcutLinked_loop h triangles ear stop pass \<Rightarrow>
          (if prev_of h ear \<noteq> next_of h ear then
             (let prev = prev_of h ear; next = next_of h ear in
              andThen (if truthy invSize then isEarHashed n h ear minX minY (numberOf invSize)
                       else isEar n h ear)
                (\<lambda>clip.
                   if clip then
                     (let triangles1 = triangles @
                            [vertexIndex h dm prev, vertexIndex h dm ear, vertexIndex h dm next];
                          h1 = removeNode h ear;
                          ear1 = next_of h1 next
                      in engine n dm minX minY invSize (EarcutLinked_loop h1 triangles1 ear1 ear1 pass))
                   else if next = stop then
                     (if pass = 0 then
                        andThen (filterPoints n h (Some next) None)
                          (\<lambda>(r, h1). engine n dm minX minY invSize (EarcutLinked h1 triangles r 1))
                      else if pass = 1 then
                        andThen (filterPoints n h (Some next) None)
                          (\<lambda>(r, h1).
                             andThen (cureLocalIntersections n h1 triangles r dm)
                               (\<lambda>(ear1, h2, triangles1).
                                  engine n dm minX minY invSize (EarcutLinked h2 triangles1 ear1 2)))
                      else if pass = 2 then
                        engine n dm minX minY invSize (SplitEarcut h triangles next)
                      else Return (h, triangles))
                   else engine n dm minX minY invSize (EarcutLinked_loop h triangles next stop pass)))
           else Return (h, triangles))
      | SplitEarcut h triangles start \<Rightarrow>
          andThen (splitEarcut_outer n h start start)
            (\<lambda>r. case r of
                    None \<Rightarrow> Return (h, triangles)
                  | Some (a, b) \<Rightarrow>
                      (case splitPolygon h a b of
                         (c, h1) \<Rightarrow>
                           andThen (filterPoints n h1 (Some a) (Some (next_of h1 a)))
                             (\<lambda>(a1, h2).
                                andThen (filterPoints n h2 (Some c) (Some (next_of h2 c)))
                                  (\<lambda>(c1, h3).
                                     andThen (engine n dm minX minY invSize (EarcutLinked h3 triangles a1 0))
                                       (\<lambda>(h4, triangles1).
                                          engine n dm minX minY invSize
                                            (EarcutLinked h4 triangles1 c1 0)))))))"

definition earcutLinked ::
  "nat \<Rightarrow> heap \<Rightarrow> rat list \<Rightarrow> addr option \<Rightarrow> nat \<Rightarrow> rat \<Rightarrow> rat \<Rightarrow> rat option \<Rightarrow> nat
     \<Rightarrow> (heap \<times> rat list) outcome" where
  "earcutLinked fuel h triangles ear dm minX minY invSize pass =
     engine fuel dm minX minY invSize (EarcutLinked h triangles ear pass)"

definition splitEarcut ::
  "nat \<Rightarrow> heap \<Rightarrow> rat list \<Rightarrow> addr \<Rightarrow> nat \<Rightarrow> rat \<Rightarrow> rat \<Rightarrow> rat option \<Rightarrow> (heap \<times> rat list) outcome" where
  "splitEarcut fuel h triangles start dm minX minY invSize =
     engine fuel dm minX minY invSize (SplitEarcut h triangles start)"

section \<open>Hole merger\<close>

text \<open>\<open>getLeftmost(start)\<close>: find the leftmost node of a polygon ring.\<close>

fun getLeftmost_loop :: "nat \<Rightarrow> heap \<Rightarrow> addr \<Rightarrow> addr \<Rightarrow> addr \<Rightarrow> addr outcome" where
  "getLeftmost_loop 0 h start p leftmost = None"
| "getLeftmost_loop (Suc n) h start p leftmost =
     (let leftmost1 =
            (if x_of h p < x_of h leftmost \<or> (x_of h p = x_of h leftmost \<and> y_of h p < y_of h leftmost)
             then p else leftmost);
          p1 = next_of h p
      in if p1 \<noteq> start then getLeftmost_loop n h start p1 leftmost1 else Return leftmost1)"

definition getLeftmost :: "nat \<Rightarrow> heap \<Rightarrow> addr \<Rightarrow> addr outcome" where
  "getLeftmost fuel h start = getLeftmost_loop fuel h start start start"

text \<open>
  \<open>findHoleBridge(hole, outerNode)\<close>: David Eberly's algorithm for finding a bridge
  between hole and outer polygon. \<open>qx\<close> starts at \<open>-Infinity\<close> (\<open>None\<close>) and \<open>tanMin\<close>
  at \<open>Infinity\<close> (\<open>None\<close>). The first loop gives \<open>Inl p\<close> where the source returns \<open>p\<close>
  from inside it, and \<open>Inr (qx, m)\<close> at its end.
\<close>

fun findHoleBridge_ray ::
  "nat \<Rightarrow> heap \<Rightarrow> addr \<Rightarrow> addr \<Rightarrow> addr \<Rightarrow> rat option \<Rightarrow> addr option
     \<Rightarrow> (addr + rat option \<times> addr option) outcome" where
  "findHoleBridge_ray 0 h hole outerNode p qx m = None"
| "findHoleBridge_ray (Suc n) h hole outerNode p qx m =
     (let hx = x_of h hole; hy = y_of h hole; pn = next_of h p;
          continue = (\<lambda>qx1 m1. if pn \<noteq> outerNode then findHoleBridge_ray n h hole outerNode pn qx1 m1
                                else Return (Inr (qx1, m1)))
      in if hy \<le> y_of h p \<and> hy \<ge> y_of h pn \<and> y_of h pn \<noteq> y_of h p then
           (let x = x_of h p + ((hy - y_of h p) * (x_of h pn - x_of h p)) / (y_of h pn - y_of h p) in
            if x \<le> hx \<and> (case qx of None \<Rightarrow> True | Some q \<Rightarrow> x > q) then
              (if x = hx \<and> hy = y_of h p then Return (Inl p)
               else if x = hx \<and> hy = y_of h pn then Return (Inl pn)
               else continue (Some x) (Some (if x_of h p < x_of h pn then p else pn)))
            else continue qx m)
         else continue qx m)"

fun findHoleBridge_sweep ::
  "nat \<Rightarrow> heap \<Rightarrow> addr \<Rightarrow> rat \<Rightarrow> addr \<Rightarrow> rat \<Rightarrow> rat \<Rightarrow> addr \<Rightarrow> addr \<Rightarrow> rat option \<Rightarrow> addr outcome" where
  "findHoleBridge_sweep 0 h hole qx stop mx my p m tanMin = None"
| "findHoleBridge_sweep (Suc n) h hole qx stop mx my p m tanMin =
     (let hx = x_of h hole; hy = y_of h hole; pn = next_of h p;
          continue = (\<lambda>m1 tanMin1. if pn \<noteq> stop then findHoleBridge_sweep n h hole qx stop mx my pn m1 tanMin1
                                    else Return m1)
      in if hx \<ge> x_of h p \<and> x_of h p \<ge> mx \<and> hx \<noteq> x_of h p \<and>
            pointInTriangle (if hy < my then hx else qx) hy mx my (if hy < my then qx else hx) hy
              (x_of h p) (y_of h p)
         then
           (let tn = \<bar>hy - y_of h p\<bar> / (hx - x_of h p) in
            if locallyInside h p hole \<and>
               ((case tanMin of None \<Rightarrow> True | Some t \<Rightarrow> tn < t) \<or>
                (tanMin = Some tn \<and>
                 (x_of h p > x_of h m \<or> (x_of h p = x_of h m \<and> sectorContainsSector h m p))))
            then continue p (Some tn)
            else continue m tanMin)
         else continue m tanMin)"

definition findHoleBridge :: "nat \<Rightarrow> heap \<Rightarrow> addr \<Rightarrow> addr \<Rightarrow> addr option outcome" where
  "findHoleBridge fuel h hole outerNode =
     andThen (findHoleBridge_ray fuel h hole outerNode outerNode None None)
       (\<lambda>r. case r of
               Inl p \<Rightarrow> Return (Some p)
             | Inr (qx, m) \<Rightarrow>
                 (case m of
                    None \<Rightarrow> Return None
                  | Some ma \<Rightarrow>
                      if Some (x_of h hole) = qx then Return (Some ma)
                      else andThen (findHoleBridge_sweep fuel h hole (numberOf qx) ma
                                      (x_of h ma) (y_of h ma) ma ma None)
                             (\<lambda>m1. Return (Some m1))))"

text \<open>
  \<open>eliminateHole(hole, outerNode)\<close>: find a bridge between vertices that connects hole
  with an outer ring and link it.
\<close>

definition eliminateHole :: "nat \<Rightarrow> heap \<Rightarrow> addr \<Rightarrow> addr \<Rightarrow> heap outcome" where
  "eliminateHole fuel h hole outerNode =
     andThen (findHoleBridge fuel h hole outerNode)
       (\<lambda>found. case found of
                    None \<Rightarrow> Return h
                  | Some on \<Rightarrow>
                      (case splitPolygon h on hole of
                         (b, h1) \<Rightarrow>
                           andThen (filterPoints fuel h1 (Some on) (Some (next_of h1 on)))
                             (\<lambda>(r1, h2).
                                andThen (filterPoints fuel h2 (Some b) (Some (next_of h2 b)))
                                  (\<lambda>(r2, h3). Return h3))))"

text \<open>The source's \<open>areas && areas[k]\<close>.\<close>

definition areaAt :: "rat list option \<Rightarrow> nat \<Rightarrow> rat option" where
  "areaAt areas k =
     (case areas of None \<Rightarrow> None | Some ar \<Rightarrow> if k < length ar then Some (ar ! k) else None)"

text \<open>
  \<open>eliminateHoles\<close>: link every hole into the outer loop, producing a single-ring polygon
  without holes. \<open>eliminateHoles_rings\<close> is its first loop, over the hole numbers, and
  \<open>eliminateHoles_merge\<close> its second, over the sorted queue. \<open>queue.sort(compareX)\<close> is
  taken to be a stable sort by \<open>x\<close>.
\<close>

fun eliminateHoles_rings ::
  "nat \<Rightarrow> (rat list \<Rightarrow> nat \<Rightarrow> nat \<Rightarrow> nat \<Rightarrow> rat) \<Rightarrow> rat list \<Rightarrow> nat list \<Rightarrow> nat \<Rightarrow> rat list option
     \<Rightarrow> nat list \<Rightarrow> addr list \<Rightarrow> heap \<Rightarrow> (addr list \<times> heap) outcome" where
  "eliminateHoles_rings fuel sa data holeIndices dm areas [] queue h = Return (queue, h)"
| "eliminateHoles_rings fuel sa data holeIndices dm areas (i # rest) queue h =
     (let len = length holeIndices;
          start = holeIndices ! i * dm;
          fin = (if i < len - 1 then holeIndices ! (i + 1) * dm else length data)
      in andThen (linkedList sa data start fin dm False (areaAt areas (i + 1)) h)
           (\<lambda>(lst, h1).
              case lst of
                None \<Rightarrow> Throw TypeError
              | Some l \<Rightarrow>
                  (let h2 = (if l = next_of h1 l
                             then h1\<lparr> steiner_of := (steiner_of h1)(l := True) \<rparr> else h1)
                   in andThen (getLeftmost fuel h2 l)
                        (\<lambda>leftmost.
                           eliminateHoles_rings fuel sa data holeIndices dm areas rest
                             (queue @ [leftmost]) h2))))"

fun eliminateHoles_merge :: "nat \<Rightarrow> addr list \<Rightarrow> addr \<Rightarrow> heap \<Rightarrow> (addr \<times> heap) outcome" where
  "eliminateHoles_merge fuel [] outerNode h = Return (outerNode, h)"
| "eliminateHoles_merge fuel (hole # rest) outerNode h =
     andThen (eliminateHole fuel h hole outerNode)
       (\<lambda>h1. andThen (filterPoints fuel h1 (Some outerNode) (Some (next_of h1 outerNode)))
                (\<lambda>(r, h2). case r of
                              None \<Rightarrow> Throw TypeError
                            | Some on \<Rightarrow> eliminateHoles_merge fuel rest on h2))"

definition eliminateHoles ::
  "nat \<Rightarrow> (rat list \<Rightarrow> nat \<Rightarrow> nat \<Rightarrow> nat \<Rightarrow> rat) \<Rightarrow> rat list \<Rightarrow> nat list \<Rightarrow> addr \<Rightarrow> nat \<Rightarrow> rat list option
     \<Rightarrow> heap \<Rightarrow> (addr \<times> heap) outcome" where
  "eliminateHoles fuel sa data holeIndices outerNode dm areas h =
     andThen (eliminateHoles_rings fuel sa data holeIndices dm areas [0 ..< length holeIndices] [] h)
       (\<lambda>(queue, h1). eliminateHoles_merge fuel (sort_key (x_of h1) queue) outerNode h1)"

section \<open>Entry point\<close>

text \<open>
  The bounding box loop of \<open>earcut\<close>. A coordinate read past the end of the array is
  \<open>undefined\<close>, every comparison with it is false, and the box is left as it is.
\<close>

definition coord :: "rat list \<Rightarrow> nat \<Rightarrow> rat option" where
  "coord positions k = (if k < length positions then Some (positions ! k) else None)"

function earcut_bbox ::
  "rat list \<Rightarrow> nat \<Rightarrow> nat \<Rightarrow> nat \<Rightarrow> rat \<Rightarrow> rat \<Rightarrow> rat \<Rightarrow> rat \<Rightarrow> (rat \<times> rat \<times> rat \<times> rat) option" where
  "earcut_bbox positions i outerLen dm minX minY maxX maxY =
     (if i < outerLen then
        (if dm = 0 then None
         else
           (let x = coord positions i; y = coord positions (i + 1);
                minX1 = (case x of None \<Rightarrow> minX | Some v \<Rightarrow> if v < minX then v else minX);
                minY1 = (case y of None \<Rightarrow> minY | Some v \<Rightarrow> if v < minY then v else minY);
                maxX1 = (case x of None \<Rightarrow> maxX | Some v \<Rightarrow> if v > maxX then v else maxX);
                maxY1 = (case y of None \<Rightarrow> maxY | Some v \<Rightarrow> if v > maxY then v else maxY)
            in earcut_bbox positions (i + dm) outerLen dm minX1 minY1 maxX1 maxY1))
      else Some (minX, minY, maxX, maxY))"
  by pat_completeness auto
termination
  by (relation "measure (\<lambda>(positions, i, outerLen, dm, minX, minY, maxX, maxY). outerLen - i)") auto

declare earcut_bbox.simps [simp del]

text \<open>
  The values of \<open>minX\<close>, \<open>minY\<close> and \<open>invSize\<close> with which \<open>earcut\<close> calls
  \<open>earcutLinked\<close>. Below the threshold all three stay \<open>undefined\<close>; \<open>minX\<close> and \<open>minY\<close>
  are then never read and are given as 0.
\<close>

definition earcut_invSize :: "rat list \<Rightarrow> nat \<Rightarrow> nat \<Rightarrow> (rat \<times> rat \<times> rat option) outcome" where
  "earcut_invSize positions outerLen dm =
     (if length positions > 80 * dm then
        (case (coord positions 0, coord positions 1) of
           (Some x0, Some y0) \<Rightarrow>
             (case earcut_bbox positions dm outerLen dm x0 y0 x0 y0 of
                None \<Rightarrow> None
              | Some (minX, minY, maxX, maxY) \<Rightarrow>
                  (let invSize = max (maxX - minX) (maxY - minY) in
                   Return (minX, minY, Some (if invSize \<noteq> 0 then 1 / invSize else 0))))
         | _ \<Rightarrow> Throw UndefinedRead)
      else Return (0, 0, None))"

text \<open>
  \<open>earcut(positions, holeIndices, dim, areas)\<close>. \<open>holeIndices\<close> and \<open>areas\<close> are
  optional arguments; \<open>dm\<close> is the source's \<open>dim\<close>.
\<close>

definition hasHoles :: "nat list option \<Rightarrow> bool" where
  "hasHoles holeIndices = (case holeIndices of None \<Rightarrow> False | Some hs \<Rightarrow> hs \<noteq> [])"

definition outerLen :: "rat list \<Rightarrow> nat list option \<Rightarrow> nat \<Rightarrow> nat" where
  "outerLen positions holeIndices dm =
     (case holeIndices of
        None \<Rightarrow> length positions
      | Some hs \<Rightarrow> (case hs of [] \<Rightarrow> length positions | h0 # _ \<Rightarrow> h0 * dm))"

definition earcut ::
  "nat \<Rightarrow> (rat list \<Rightarrow> nat \<Rightarrow> nat \<Rightarrow> nat \<Rightarrow> rat) \<Rightarrow> rat list \<Rightarrow> nat list option \<Rightarrow> nat \<Rightarrow> rat list option
     \<Rightarrow> rat list outcome" where
  "earcut fuel sa positions holeIndices dm areas =
     andThen (linkedList sa positions 0 (outerLen positions holeIndices dm) dm True
                (areaAt areas 0) empty_heap)
       (\<lambda>(outerNode, h).
          case outerNode of
            None \<Rightarrow> Return []
          | Some on \<Rightarrow>
              if next_of h on = prev_of h on then Return []
              else
                andThen (case holeIndices of
                           None \<Rightarrow> Return (on, h)
                         | Some hs \<Rightarrow>
                             if hs \<noteq> [] then eliminateHoles fuel sa positions hs on dm areas h
                             else Return (on, h))
                  (\<lambda>(outerNode1, h1).
                     andThen (earcut_invSize positions (outerLen positions holeIndices dm) dm)
                       (\<lambda>(minX, minY, invSize).
                          andThen (earcutLinked fuel h1 [] (Some outerNode1) dm minX minY invSize 0)
                            (\<lambda>(h2, triangles). Return triangles))))"
section \<open>Notions used to state the properties\<close>


text \<open>Fuel for the concrete runs below, written in unary so that it can be consumed step by step.\<close>

abbreviation fuel8 :: nat where
  "fuel8 \<equiv> Suc (Suc (Suc (Suc (Suc (Suc (Suc (Suc 0)))))))"

text \<open>
  The signed area that \<open>linkedList\<close> computes itself for ring \<open>k\<close> when no area is
  passed in: ring 0 is the outer span, ring \<open>i + 1\<close> the span of hole \<open>i\<close>, with the
  bounds \<open>earcut\<close> and \<open>eliminateHoles\<close> use.
\<close>

definition freshArea ::
  "(rat list \<Rightarrow> nat \<Rightarrow> nat \<Rightarrow> nat \<Rightarrow> rat) \<Rightarrow> rat list \<Rightarrow> nat list option \<Rightarrow> nat \<Rightarrow> nat \<Rightarrow> rat" where
  "freshArea sa positions holeIndices dm k =
     (case k of
        0 \<Rightarrow> sa positions 0 (outerLen positions holeIndices dm) dm
      | Suc i \<Rightarrow>
          (case holeIndices of
             None \<Rightarrow> 0
           | Some hs \<Rightarrow>
               sa positions (hs ! i * dm)
                 (if i < length hs - 1 then hs ! (i + 1) * dm else length positions) dm))"

text \<open>
  \<open>follows dm s t\<close>: state \<open>t\<close> can come after state \<open>s\<close>. Every vertex offset stored in
  a node of \<open>t\<close> is stored in a node of \<open>s\<close>, and the output of \<open>t\<close> is the output of
  \<open>s\<close> followed by whole triples of values \<open>p.i / dim\<close> of nodes.
\<close>

definition follows :: "nat \<Rightarrow> heap \<times> rat list \<Rightarrow> heap \<times> rat list \<Rightarrow> bool" where
  "follows dm s t \<longleftrightarrow>
     (\<forall>a. \<exists>b. i_of (fst t) a = i_of (fst s) b) \<and>
     (\<exists>new. snd t = snd s @ new \<and> 3 dvd length new \<and>
        (\<forall>v \<in> set new. \<exists>b. v = vertexIndex (fst s) dm b))"

text \<open>
  \<open>ring h xs\<close>: the distinct nodes \<open>xs\<close> form a circular doubly linked list in this
  order; \<open>next\<close> leads from each to the one after it and from the last to the first, and
  \<open>prev\<close> leads back.
\<close>

definition ring :: "heap \<Rightarrow> addr list \<Rightarrow> bool" where
  "ring h xs \<longleftrightarrow>
     xs \<noteq> [] \<and> distinct xs \<and> map (next_of h) xs = rotate1 xs \<and> map (prev_of h) (rotate1 xs) = xs"

text \<open>
  While \<open>linkedList\<close> inserts: no node yet and \<open>last\<close> undefined, or the nodes inserted
  so far form a ring that \<open>last\<close> closes.
\<close>

definition building :: "heap \<Rightarrow> addr option \<Rightarrow> addr list \<Rightarrow> bool" where
  "building h lst xs \<longleftrightarrow>
     set xs \<subseteq> {..< allocated h} \<and>
     (case lst of None \<Rightarrow> xs = [] | Some l \<Rightarrow> ring h xs \<and> l = last xs)"

text \<open>What a node holds of its vertex, and the vertex at an offset of the array.\<close>

definition nodeAt :: "heap \<Rightarrow> addr \<Rightarrow> nat \<times> rat \<times> rat" where
  "nodeAt h a = (i_of h a, x_of h a, y_of h a)"

definition vertexAt :: "rat list \<Rightarrow> nat \<Rightarrow> nat \<times> rat \<times> rat" where
  "vertexAt data i = (i, data ! i, data ! (i + 1))"

text \<open>
  The loop counters of the two \<open>for\<close> loops of \<open>linkedList\<close>:
  \<open>start, start + dim, ...\<close> below \<open>end\<close>, and \<open>end - dim, end - 2 dim, ...\<close> down to
  \<open>start\<close>.
\<close>

function offsets_up :: "nat \<Rightarrow> nat \<Rightarrow> nat \<Rightarrow> nat list" where
  "offsets_up i fin dm = (if i < fin \<and> dm \<noteq> 0 then i # offsets_up (i + dm) fin dm else [])"
  by pat_completeness auto
termination
  by (relation "measure (\<lambda>(i, fin, dm). fin - i)") auto

declare offsets_up.simps [simp del]

function offsets_down :: "int \<Rightarrow> nat \<Rightarrow> nat \<Rightarrow> nat list" where
  "offsets_down i start dm =
     (if int start \<le> i \<and> dm \<noteq> 0 then nat i # offsets_down (i - int dm) start dm else [])"
  by pat_completeness auto
termination
  by (relation "measure (\<lambda>(i, start, dm). nat (i - int start + 1))") auto

declare offsets_down.simps [simp del]

text \<open>
  The offsets at which \<open>linkedList\<close> inserts nodes, in the order of insertion, and the
  offsets left in the ring after it has looked for a duplicate: the last inserted node is
  dropped when it is not the only one and coincides with the first.
\<close>

definition insertionOrder ::
  "(rat list \<Rightarrow> nat \<Rightarrow> nat \<Rightarrow> nat \<Rightarrow> rat) \<Rightarrow> rat list \<Rightarrow> nat \<Rightarrow> nat \<Rightarrow> nat \<Rightarrow> bool \<Rightarrow> rat option
     \<Rightarrow> nat list" where
  "insertionOrder sa data start fin dm clockwise ar =
     (if clockwise = ((case ar of None \<Rightarrow> sa data start fin dm | Some v \<Rightarrow> v) < 0)
      then offsets_up start fin dm
      else offsets_down (int fin - int dm) start dm)"

definition coincident :: "rat list \<Rightarrow> nat \<Rightarrow> nat \<Rightarrow> bool" where
  "coincident data i j \<longleftrightarrow> data ! i = data ! j \<and> data ! (i + 1) = data ! (j + 1)"

definition dropsLast :: "rat list \<Rightarrow> nat list \<Rightarrow> bool" where
  "dropsLast data offs \<longleftrightarrow> 2 \<le> length offs \<and> coincident data (last offs) (hd offs)"

definition ringOffsets :: "rat list \<Rightarrow> nat list \<Rightarrow> nat list" where
  "ringOffsets data offs = (if dropsLast data offs then butlast offs else offs)"

text \<open>The node and the store \<open>linkedList\<close> gives for a whole coordinate array.\<close>

definition builtRing :: "rat list \<Rightarrow> nat \<Rightarrow> addr \<times> heap" where
  "builtRing positions dm =
     (case linkedList getPolygonSignedArea positions 0 (length positions) dm True None empty_heap of
        Some (Inr (Some l, h)) \<Rightarrow> (l, h)
      | _ \<Rightarrow> (0, empty_heap))"

text \<open>
  The words of the spec's ear validity test, for comparison with \<open>isEar\<close>: a node is an
  ear iff its signed turn is a convex turn and no other ring vertex lies strictly inside
  the candidate triangle while itself being non-reflex. A vertex \<open>p\<close> is taken as
  non-reflex when \<open>area(p.prev, p, p.next) \<le> 0\<close>, the source calling a vertex with a
  positive or zero area reflex.
\<close>

definition strictlyInside :: "heap \<Rightarrow> addr \<Rightarrow> addr \<Rightarrow> bool" where
  "strictlyInside h ear p \<longleftrightarrow>
     (let ax = x_of h (prev_of h ear); ay = y_of h (prev_of h ear);
          bx = x_of h ear; by = y_of h ear;
          cx = x_of h (next_of h ear); cy = y_of h (next_of h ear);
          px = x_of h p; py = y_of h p
      in (cx - px) * (ay - py) - (ax - px) * (cy - py) > 0 \<and>
         (ax - px) * (by - py) - (bx - px) * (ay - py) > 0 \<and>
         (bx - px) * (cy - py) - (cx - px) * (by - py) > 0)"

definition claimedEar :: "heap \<Rightarrow> addr list \<Rightarrow> addr \<Rightarrow> bool" where
  "claimedEar h xs ear \<longleftrightarrow>
     area h (prev_of h ear) ear (next_of h ear) < 0 \<and>
     \<not> (\<exists>p \<in> set xs. p \<noteq> ear \<and> area h (prev_of h p) p (next_of h p) \<le> 0 \<and> strictlyInside h ear p)"

section \<open>Sequencing of outcomes\<close>

lemma andThen_simps:
  "andThen (Return v) f = f v" "andThen (Throw e) f = Throw e" "andThen None f = None"
  by (simp_all add: andThen_def)

lemma andThen_weak_cong: "m = m' \<Longrightarrow> andThen m f = andThen m' f"
  by simp

lemma andThen_ReturnE:
  assumes "andThen m f = Return r"
  obtains v where "m = Return v" and "f v = Return r"
  using assms by (auto simp: andThen_def split: option.splits sum.splits)

section \<open>What the engine appends to the output\<close>





lemma removeNode_i_of [simp]: "i_of (removeNode h p) = i_of h"
  by (simp add: removeNode_def Let_def split: option.splits)

















section \<open>Vertex offsets stored in nodes\<close>






lemma follows_inv:
  assumes "follows dm (h, ts) (h', ts')" and "\<And>a. P (i_of h a)"
  shows "P (i_of h' a)"
proof -
  from assms(1) obtain b where "i_of h' a = i_of h b" unfolding follows_def by fastforce
  with assms(2) show ?thesis by simp
qed










section \<open>Running the model on concrete inputs\<close>

text \<open>
  Concrete runs are evaluated by rewriting with the defining equations; the congruence
  rules make the rewriting follow the order of evaluation of the program (a condition
  before its branches, a computation before what is done with its result).
\<close>

lemmas eval_congs = andThen_weak_cong let_weak_cong if_weak_cong prod.case_cong_weak
  option.case_cong_weak sum.case_cong_weak call.case_cong_weak list.case_cong_weak

lemmas eval_simps = earcut_def outerLen_def areaAt_def linkedList_def linkedList_up.simps
  linkedList_down.simps getPolygonSignedArea_def getPolygonSignedArea_loop.simps
  earcut_invSize_def earcutLinked_def truthy_def numberOf_def isEar_def blocks_def
  pointInTriangle_def area_def equals_def removeNode_def insertNode_def Node_def empty_heap_def
  andThen_simps vertexIndex_def filterPoints_def coord_def Let_def

lemma earcut_square:
  "earcut fuel8 getPolygonSignedArea [0, 0, 10, 0, 10, 10, 0, 10] None 2 None
     = Return [2, 3, 0, 0, 1, 2]"
  by (simp add: eval_simps cong: eval_congs)

section \<open>Shape of the output\<close>





section \<open>Precomputed areas\<close>

lemma andThen_cong:
  "m = m' \<Longrightarrow> (\<And>v. m' = Return v \<Longrightarrow> f v = g v) \<Longrightarrow> andThen m f = andThen m' g"
  by (auto simp: andThen_def split: option.splits sum.splits)

lemma linkedList_fresh:
  "linkedList sa data start fin dm cw (Some (sa data start fin dm)) h
     = linkedList sa data start fin dm cw None h"
  by (simp add: linkedList_def)

lemma eliminateHoles_rings_fresh:
  assumes "\<forall>k < length ar. ar ! k = freshArea sa data (Some hs) dm k"
  shows "eliminateHoles_rings n sa data hs dm (Some ar) ks queue h
           = eliminateHoles_rings n sa data hs dm None ks queue h"
proof (induction ks arbitrary: queue h)
  case Nil
  show ?case by simp
next
  case (Cons k rest)
  have "linkedList sa data (hs ! k * dm)
          (if k < length hs - 1 then hs ! (k + 1) * dm else length data) dm False
          (areaAt (Some ar) (k + 1)) h
        = linkedList sa data (hs ! k * dm)
          (if k < length hs - 1 then hs ! (k + 1) * dm else length data) dm False
          (areaAt None (k + 1)) h" for h
    using assms linkedList_fresh [of sa data "hs ! k * dm" _ dm False h]
    by (auto simp: areaAt_def freshArea_def)
  then show ?case
    unfolding eliminateHoles_rings.simps Let_def
    by (intro andThen_cong) (auto split: option.splits simp: Cons.IH)
qed

text \<open>
  C9: for every input, calling \<open>earcut\<close> with \<open>areas\<close> supplied so that \<open>areas[0]\<close>
  is the freshly computed signed area of the outer span and \<open>areas[i + 1]\<close> that of hole
  \<open>i\<close> gives the same outcome as calling it with \<open>areas\<close> omitted. (Entries that
  \<open>areas\<close> does not have are \<open>undefined\<close> and computed afresh in both calls.)
\<close>

theorem earcut_fresh_areas:
  assumes "\<forall>k < length ar. ar ! k = freshArea sa positions holeIndices dm k"
  shows "earcut fuel sa positions holeIndices dm (Some ar) = earcut fuel sa positions holeIndices dm None"
proof -
  have outer: "linkedList sa positions 0 (outerLen positions holeIndices dm) dm True (areaAt (Some ar) 0) h
      = linkedList sa positions 0 (outerLen positions holeIndices dm) dm True (areaAt None 0) h" for h
    using assms linkedList_fresh [of sa positions 0 "outerLen positions holeIndices dm" dm True h]
    by (auto simp: areaAt_def freshArea_def)
  have holes: "eliminateHoles fuel sa positions hs on dm (Some ar) h
      = eliminateHoles fuel sa positions hs on dm None h" if "holeIndices = Some hs" for hs on h
    using eliminateHoles_rings_fresh [of ar sa positions hs dm] assms that
    by (simp add: eliminateHoles_def)
  show ?thesis
    unfolding earcut_def outer
    by (intro andThen_cong refl) (auto split: option.splits simp: holes)
qed

lemma square_area:
  "getPolygonSignedArea [0, 0, 10, 0, 10, 10, 0, 10] 0 (length [0, 0, 10, 0, 10, 10, 0, 10 :: rat]) 2
     = - 100"
  by (simp add: getPolygonSignedArea_def getPolygonSignedArea_loop.simps cong: if_weak_cong)

text \<open>The square with its area \<open>-100\<close> passed in.\<close>

theorem earcut_fresh_areas_witness:
  "freshArea getPolygonSignedArea [0, 0, 10, 0, 10, 10, 0, 10] None 2 0 = - 100 \<and>
   earcut fuel8 getPolygonSignedArea [0, 0, 10, 0, 10, 10, 0, 10] None 2 (Some [- 100])
     = Return [2, 3, 0, 0, 1, 2]"
proof -
  have a: "freshArea getPolygonSignedArea [0, 0, 10, 0, 10, 10, 0, 10] None 2 0 = - 100"
    using square_area by (simp add: freshArea_def outerLen_def del: length_Cons)
  then have "\<forall>k < length [- 100 :: rat].
      [- 100] ! k = freshArea getPolygonSignedArea [0, 0, 10, 0, 10, 10, 0, 10] None 2 k"
    by simp
  from earcut_fresh_areas [OF this, of fuel8] earcut_square a show ?thesis by simp
qed
section \<open>When the spatial index is used\<close>





section \<open>Rings of nodes\<close>

lemma ring_rotate1: "ring h xs \<Longrightarrow> ring h (rotate1 xs)"
  unfolding ring_def
  by (metis distinct1_rotate rotate1_is_Nil_conv rotate1_map)

lemma ring_rotate: "ring h xs \<Longrightarrow> ring h (rotate n xs)"
  by (induction n) (auto simp: ring_rotate1)

lemma ring_next_hd: "ring h (x # xs) \<Longrightarrow> next_of h x = hd (xs @ [x])"
  by (cases xs) (auto simp: ring_def)

lemma ring_prev_hd: "ring h (x # xs) \<Longrightarrow> prev_of h x = last (x # xs)"
proof -
  assume r: "ring h (x # xs)"
  then have "map (prev_of h) (xs @ [x]) = x # xs" by (simp add: ring_def)
  then have "last (map (prev_of h) (xs @ [x])) = last (x # xs)" by simp
  then show ?thesis by simp
qed

lemma ring_next_mem: "ring h xs \<Longrightarrow> p \<in> set xs \<Longrightarrow> next_of h p \<in> set xs"
proof -
  assume r: "ring h xs" and p: "p \<in> set xs"
  then have "next_of h p \<in> set (map (next_of h) xs)" by simp
  also have "\<dots> = set xs" using r by (simp add: ring_def)
  finally show ?thesis .
qed

lemma ring_prev_mem: "ring h xs \<Longrightarrow> p \<in> set xs \<Longrightarrow> prev_of h p \<in> set xs"
proof -
  assume r: "ring h xs" and p: "p \<in> set xs"
  then have "prev_of h p \<in> set (map (prev_of h) (rotate1 xs))" by simp
  also have "\<dots> = set xs" using r by (simp add: ring_def)
  finally show ?thesis .
qed

lemma ring_prev_next: "ring h xs \<Longrightarrow> p \<in> set xs \<Longrightarrow> prev_of h (next_of h p) = p"
proof -
  assume r: "ring h xs" and p: "p \<in> set xs"
  then obtain k where k: "k < length xs" "xs ! k = p" by (auto simp: in_set_conv_nth)
  from r have "map (prev_of h) (map (next_of h) xs) = xs" by (simp add: ring_def)
  then have "map (prev_of h) (map (next_of h) xs) ! k = xs ! k" by simp
  with k show ?thesis by simp
qed

lemma ring_next_prev: "ring h xs \<Longrightarrow> p \<in> set xs \<Longrightarrow> next_of h (prev_of h p) = p"
proof -
  assume r: "ring h xs" and p: "p \<in> set xs"
  then have "p \<in> set (rotate1 xs)" by simp
  then obtain k where k: "k < length (rotate1 xs)" "rotate1 xs ! k = p" by (metis in_set_conv_nth)
  from r have "map (next_of h) (map (prev_of h) (rotate1 xs)) = rotate1 xs" by (simp add: ring_def)
  then have "map (next_of h) (map (prev_of h) (rotate1 xs)) ! k = rotate1 xs ! k" by simp
  with k show ?thesis by simp
qed

lemma ring_at_head:
  assumes "ring h xs" and "p \<in> set xs"
  obtains ys where "ring h (p # ys)" and "set (p # ys) = set xs" and "length (p # ys) = length xs"
proof -
  from assms(2) obtain k where k: "k < length xs" "xs ! k = p" by (auto simp: in_set_conv_nth)
  let ?r = "rotate k xs"
  have "?r \<noteq> []" using assms(1) by (simp add: ring_def)
  moreover have "hd ?r = p" using k assms(1) by (simp add: hd_rotate_conv_nth ring_def)
  ultimately obtain ys where ys: "?r = p # ys" by (cases ?r) auto
  show ?thesis
  proof
    show "ring h (p # ys)" using ring_rotate [OF assms(1), of k] ys by simp
    show "set (p # ys) = set xs" using ys [symmetric] by simp
    show "length (p # ys) = length xs" using ys [symmetric] by simp
  qed
qed

lemma removeNode_next: "next_of (removeNode h p) = (next_of h)(prev_of h p := next_of h p)"
  by (auto simp: removeNode_def Let_def split: option.splits)

lemma removeNode_prev: "prev_of (removeNode h p) = (prev_of h)(next_of h p := prev_of h p)"
  by (auto simp: removeNode_def Let_def split: option.splits)

lemma map_upd_last:
  "distinct ys \<Longrightarrow> ys \<noteq> [] \<Longrightarrow> map (f(last ys := v)) ys = map f (butlast ys) @ [v]"
proof -
  assume d: "distinct ys" and n: "ys \<noteq> []"
  then have ys: "ys = butlast ys @ [last ys]" by simp
  with d have "last ys \<notin> set (butlast ys)" by (metis distinct_butlast distinct.simps(2) distinct1_rotate rotate1.simps(2) append_butlast_last_id n distinct_append disjoint_iff list.set_intros(1))
  then have "map (f(last ys := v)) (butlast ys @ [last ys]) = map f (butlast ys) @ [v]"
    by simp
  with ys show ?thesis by simp
qed

lemma ring_removeNode:
  assumes "ring h (p # ys)" and "ys \<noteq> []"
  shows "ring (removeNode h p) ys"
proof -
  from assms obtain y zs where ys: "ys = y # zs" by (cases ys) auto
  from assms(1) have d: "distinct (p # ys)"
    and nx: "map (next_of h) (p # ys) = ys @ [p]"
    and pv: "map (prev_of h) (ys @ [p]) = p # ys"
    by (simp_all add: ring_def)
  from nx ys have np: "next_of h p = y" and nys: "map (next_of h) ys = zs @ [p]" by simp_all
  have "p # ys = (p # butlast ys) @ [last ys]" using assms(2) by simp
  with pv have "map (prev_of h) ys @ [prev_of h p] = (p # butlast ys) @ [last ys]" by simp
  then have pp: "prev_of h p = last ys" and pys: "map (prev_of h) ys = p # butlast ys"
    unfolding append1_eq_conv by simp_all
  from d have dys: "distinct ys" by simp
  have "map (next_of (removeNode h p)) ys = map (next_of h) (butlast ys) @ [y]"
    unfolding removeNode_next pp np using dys assms(2) by (rule map_upd_last)
  also have "map (next_of h) (butlast ys) = butlast (map (next_of h) ys)" by (simp add: map_butlast)
  also have "\<dots> = zs" using nys by simp
  finally have n': "map (next_of (removeNode h p)) ys = rotate1 ys" using ys by simp
  have "y \<notin> set zs" using dys ys by simp
  then have "map (prev_of (removeNode h p)) (zs @ [y]) = map (prev_of h) zs @ [last ys]"
    unfolding removeNode_prev pp np by simp
  also have "map (prev_of h) zs = butlast ys" using pys ys by simp
  finally have p': "map (prev_of (removeNode h p)) (rotate1 ys) = ys"
    using ys assms(2) by simp
  from n' p' dys assms(2) show ?thesis by (simp add: ring_def)
qed


lemma insertNode_building:
  assumes b: "building h lst xs" and ins: "insertNode i x y lst h = (p, h')"
  shows "p = allocated h" and "building h' (Some p) (xs @ [p])"
    and "allocated h' = Suc (allocated h)" and "nodeAt h' p = (i, x, y)"
    and "\<And>a. a \<noteq> p \<Longrightarrow> nodeAt h' a = nodeAt h a"
proof -
  from ins show p: "p = allocated h"
    by (auto simp: insertNode_def Node_def Let_def split: option.splits)
  from ins show al: "allocated h' = Suc (allocated h)"
    by (auto simp: insertNode_def Node_def Let_def split: option.splits)
  from ins show "nodeAt h' p = (i, x, y)"
    by (auto simp: insertNode_def Node_def Let_def nodeAt_def split: option.splits)
  from ins show "\<And>a. a \<noteq> p \<Longrightarrow> nodeAt h' a = nodeAt h a"
    by (auto simp: insertNode_def Node_def Let_def nodeAt_def split: option.splits)
  from b have sub: "set xs \<subseteq> {..< allocated h}" by (simp add: building_def)
  then have fresh: "p \<notin> set xs" using p by auto
  have sub': "set (xs @ [p]) \<subseteq> {..< allocated h'}" using sub p al by auto
  show "building h' (Some p) (xs @ [p])"
  proof (cases lst)
    case None
    with b have "xs = []" by (simp add: building_def)
    moreover from ins None have "next_of h' p = p" "prev_of h' p = p"
      by (auto simp: insertNode_def Node_def Let_def)
    ultimately show ?thesis using sub' by (simp add: building_def ring_def)
  next
    case (Some l)
    with b have r: "ring h xs" and l: "l = last xs" by (simp_all add: building_def)
    from r have ne: "xs \<noteq> []" and d: "distinct xs"
      and nx: "map (next_of h) xs = rotate1 xs" and pv: "map (prev_of h) (rotate1 xs) = xs"
      by (simp_all add: ring_def)
    from ne obtain x0 zs where xs: "xs = x0 # zs" by (cases xs) auto
    have lp: "l \<noteq> p" using fresh l ne by auto
    have nl: "next_of h l = x0" using nx xs l
      by (metis last_map last_snoc list.map_disc_iff ne rotate1.simps(2))
    from ins Some p have n': "next_of h' = (next_of h)(p := x0, l := p)"
      and p': "prev_of h' = (prev_of h)(p := l, x0 := p)"
      using lp nl by (auto simp: insertNode_def Node_def Let_def)
    have "map (next_of h') xs = map ((next_of h)(l := p)) xs"
      using fresh lp unfolding n' by (simp add: fun_upd_twist)
    also have "\<dots> = map (next_of h) (butlast xs) @ [p]"
      unfolding l using d ne by (rule map_upd_last)
    also have "map (next_of h) (butlast xs) = butlast (map (next_of h) xs)" by (simp add: map_butlast)
    also have "\<dots> = zs" using nx xs by simp
    finally have "map (next_of h') xs = zs @ [p]" .
    moreover have "next_of h' p = x0" using lp by (simp add: n')
    ultimately have "map (next_of h') (xs @ [p]) = zs @ [p, x0]" by simp
    then have N: "map (next_of h') (xs @ [p]) = rotate1 (xs @ [p])" using xs by simp
    have x0z: "x0 \<notin> set zs" using d xs by simp
    from pv xs have "map (prev_of h) zs @ [prev_of h x0] = butlast xs @ [l]"
      using l ne by simp
    then have pz: "map (prev_of h) zs = butlast xs" unfolding append1_eq_conv by simp
    have "p \<notin> set zs" using fresh xs by simp
    with x0z have "map (prev_of h') zs = map (prev_of h) zs" unfolding p' by simp
    then have "map (prev_of h') (zs @ [p, x0]) = butlast xs @ [l, p]"
      unfolding p' using pz fresh xs by auto
    then have P: "map (prev_of h') (rotate1 (xs @ [p])) = xs @ [p]"
      using xs l ne by (simp add: snoc_eq_iff_butlast)
    from N P d fresh sub' show ?thesis by (simp add: building_def ring_def)
  qed
qed


lemma ring_unrotate1:
  assumes "ring h (rotate1 zs)"
  shows "ring h zs"
proof -
  from assms have ne: "zs \<noteq> []" by (auto simp: ring_def)
  have "rotate (length zs - 1) (rotate1 zs) = rotate1 (rotate (length zs - 1) zs)"
    by (simp add: rotate1_rotate_swap)
  also have "\<dots> = rotate (Suc (length zs - 1)) zs" by simp
  also have "Suc (length zs - 1) = length zs" using ne by simp
  also have "rotate (length zs) zs = zs" by (simp add: rotate_id)
  finally have "rotate (length zs - 1) (rotate1 zs) = zs" .
  with ring_rotate [OF assms, of "length zs - 1"] show ?thesis by simp
qed

lemma ring_last_first:
  assumes "ring h ys"
  shows "ring h (last ys # butlast ys)"
proof -
  from assms have "ys \<noteq> []" by (simp add: ring_def)
  then have "rotate1 (last ys # butlast ys) = ys" by simp
  with assms show ?thesis by (metis ring_unrotate1)
qed

lemma linkedList_up_ring:
  assumes "linkedList_up data i fin dm lst h = Return (r, h')" and "building h lst xs"
  shows "\<exists>ys. building h' r (xs @ ys) \<and>
           map (nodeAt h') ys = map (vertexAt data) (offsets_up i fin dm) \<and>
           ys = [allocated h ..< allocated h'] \<and> allocated h \<le> allocated h' \<and>
           (\<forall>a < allocated h. nodeAt h' a = nodeAt h a)"
  using assms
proof (induction data i fin dm lst h arbitrary: xs rule: linkedList_up.induct)
  case (1 data i fin dm lst h)
  show ?case
  proof (cases "i < fin")
    case False
    with "1.prems" have "r = lst" "h' = h" by (simp_all add: linkedList_up.simps)
    moreover from False have "offsets_up i fin dm = []" by (simp add: offsets_up.simps)
    ultimately show ?thesis using "1.prems"(2) by simp
  next
    case True
    with "1.prems"(1) have dm: "dm \<noteq> 0" and rd: "i + 1 < length data"
      by (auto simp: linkedList_up.simps [of data i] split: if_splits)
    obtain p h1 where ins: "insertNode i (data ! i) (data ! (i + 1)) lst h = (p, h1)"
      by (cases "insertNode i (data ! i) (data ! (i + 1)) lst h")
    with "1.prems"(1) True dm rd have
      rec: "linkedList_up data (i + dm) fin dm (Some p) h1 = Return (r, h')"
      by (simp add: linkedList_up.simps [of data i])
    note I = insertNode_building [OF "1.prems"(2) ins]
    from "1.IH" [OF True dm rd ins [symmetric] rec I(2)] obtain ys where
      b: "building h' r ((xs @ [p]) @ ys)" and
      m: "map (nodeAt h') ys = map (vertexAt data) (offsets_up (i + dm) fin dm)" and
      ys: "ys = [allocated h1 ..< allocated h']" and le: "allocated h1 \<le> allocated h'" and
      fr: "\<forall>a < allocated h1. nodeAt h' a = nodeAt h1 a"
      by blast
    have "nodeAt h' p = vertexAt data i" using fr I(1,3,4) by (simp add: vertexAt_def)
    moreover have "offsets_up i fin dm = i # offsets_up (i + dm) fin dm"
      using True dm by (simp add: offsets_up.simps [of i])
    ultimately have "map (nodeAt h') (p # ys) = map (vertexAt data) (offsets_up i fin dm)"
      using m by simp
    moreover have "p # ys = [allocated h ..< allocated h']"
      using ys le I(1,3) by (simp add: upt_conv_Cons)
    moreover have "\<forall>a < allocated h. nodeAt h' a = nodeAt h a"
      using fr I(1,3,5) by auto
    moreover have "allocated h \<le> allocated h'" using le I(3) by simp
    ultimately show ?thesis using b by (intro exI [of _ "p # ys"]) simp
  qed
qed

lemma linkedList_down_ring:
  assumes "linkedList_down data i start dm lst h = Return (r, h')" and "building h lst xs"
  shows "\<exists>ys. building h' r (xs @ ys) \<and>
           map (nodeAt h') ys = map (vertexAt data) (offsets_down i start dm) \<and>
           ys = [allocated h ..< allocated h'] \<and> allocated h \<le> allocated h' \<and>
           (\<forall>a < allocated h. nodeAt h' a = nodeAt h a)"
  using assms
proof (induction data i start dm lst h arbitrary: xs rule: linkedList_down.induct)
  case (1 data i start dm lst h)
  show ?case
  proof (cases "int start \<le> i")
    case False
    with "1.prems" have "r = lst" "h' = h" by (simp_all add: linkedList_down.simps)
    moreover from False have "offsets_down i start dm = []" by (simp add: offsets_down.simps)
    ultimately show ?thesis using "1.prems"(2) by simp
  next
    case True
    with "1.prems"(1) have dm: "dm \<noteq> 0" and rd: "nat i + 1 < length data"
      by (auto simp: linkedList_down.simps [of data i] split: if_splits)
    obtain p h1 where ins: "insertNode (nat i) (data ! nat i) (data ! (nat i + 1)) lst h = (p, h1)"
      by (cases "insertNode (nat i) (data ! nat i) (data ! (nat i + 1)) lst h")
    with "1.prems"(1) True dm rd have
      rec: "linkedList_down data (i - int dm) start dm (Some p) h1 = Return (r, h')"
      by (simp add: linkedList_down.simps [of data i])
    note I = insertNode_building [OF "1.prems"(2) ins]
    from "1.IH" [OF True dm rd ins [symmetric] rec I(2)] obtain ys where
      b: "building h' r ((xs @ [p]) @ ys)" and
      m: "map (nodeAt h') ys = map (vertexAt data) (offsets_down (i - int dm) start dm)" and
      ys: "ys = [allocated h1 ..< allocated h']" and le: "allocated h1 \<le> allocated h'" and
      fr: "\<forall>a < allocated h1. nodeAt h' a = nodeAt h1 a"
      by blast
    have "nodeAt h' p = vertexAt data (nat i)" using fr I(1,3,4) by (simp add: vertexAt_def)
    moreover have "offsets_down i start dm = nat i # offsets_down (i - int dm) start dm"
      using True dm by (simp add: offsets_down.simps [of i])
    ultimately have "map (nodeAt h') (p # ys) = map (vertexAt data) (offsets_down i start dm)"
      using m by simp
    moreover have "p # ys = [allocated h ..< allocated h']"
      using ys le I(1,3) by (simp add: upt_conv_Cons)
    moreover have "\<forall>a < allocated h. nodeAt h' a = nodeAt h a"
      using fr I(1,3,5) by auto
    moreover have "allocated h \<le> allocated h'" using le I(3) by simp
    ultimately show ?thesis using b by (intro exI [of _ "p # ys"]) simp
  qed
qed


lemma removeNode_nodeAt [simp]: "nodeAt (removeNode h p) = nodeAt h"
  by (auto simp: removeNode_def nodeAt_def Let_def fun_eq_iff split: option.splits)

lemma removeNode_allocated [simp]: "allocated (removeNode h p) = allocated h"
  by (auto simp: removeNode_def Let_def split: option.splits)

lemma equals_nodeAt:
  "nodeAt h a = vertexAt data i \<Longrightarrow> nodeAt h b = vertexAt data j \<Longrightarrow>
   equals h a b \<longleftrightarrow> coincident data i j"
  by (auto simp: nodeAt_def vertexAt_def equals_def coincident_def)

lemma linkedList_ring:
  assumes run: "linkedList sa data start fin dm cw ar h = Return (r, h')"
  defines "offs \<equiv> insertionOrder sa data start fin dm cw ar"
  shows "(offs = [] \<longrightarrow> r = None) \<and>
         (offs \<noteq> [] \<longrightarrow>
            (\<exists>xs. ring h' xs \<and> map (nodeAt h') xs = map (vertexAt data) (ringOffsets data offs) \<and>
               r = Some (if dropsLast data offs then hd xs else last xs) \<and>
               xs = [allocated h ..< allocated h + length xs] \<and> allocated h' = allocated h + length offs))"
proof -
  let ?a = "case ar of None \<Rightarrow> sa data start fin dm | Some v \<Rightarrow> v"
  from run obtain l h1 where
    loop: "(if cw = (?a < 0) then linkedList_up data start fin dm None h
            else linkedList_down data (int fin - int dm) start dm None h) = Return (l, h1)" and
    fin: "(case l of
             None \<Rightarrow> Return (None, h1)
           | Some l \<Rightarrow>
               if equals h1 l (next_of h1 l)
               then (let h2 = removeNode h1 l in Return (Some (next_of h2 l), h2))
               else Return (Some l, h1)) = Return (r, h')"
    by (auto simp: linkedList_def Let_def elim!: andThen_ReturnE)
  have b0: "building h None []" by (simp add: building_def)
  have "\<exists>ys. building h1 l ([] @ ys) \<and> map (nodeAt h1) ys = map (vertexAt data) offs \<and>
          ys = [allocated h ..< allocated h1] \<and> allocated h \<le> allocated h1 \<and>
          (\<forall>a < allocated h. nodeAt h1 a = nodeAt h a)"
  proof (cases "cw = (?a < 0)")
    case True
    with loop have "linkedList_up data start fin dm None h = Return (l, h1)" by simp
    from linkedList_up_ring [OF this b0] True show ?thesis
      by (simp add: offs_def insertionOrder_def)
  next
    case False
    with loop have "linkedList_down data (int fin - int dm) start dm None h = Return (l, h1)" by simp
    from linkedList_down_ring [OF this b0] False show ?thesis
      by (simp add: offs_def insertionOrder_def)
  qed
  then obtain ys where b: "building h1 l ys" and m: "map (nodeAt h1) ys = map (vertexAt data) offs"
    and ys: "ys = [allocated h ..< allocated h1]" and le: "allocated h \<le> allocated h1"
    by auto
  from m have len: "length ys = length offs" by (metis length_map)
  from ys le len have al: "allocated h1 = allocated h + length offs" by simp
  show ?thesis
  proof (cases l)
    case None
    with b have "ys = []" by (simp add: building_def)
    with len None fin show ?thesis by auto
  next
    case (Some la)
    with b have r1: "ring h1 ys" and la: "la = last ys" by (simp_all add: building_def)
    from r1 have ne: "ys \<noteq> []" and d: "distinct ys" by (simp_all add: ring_def)
    with len have one: "offs \<noteq> []" by auto
    from ne obtain y0 zs where yz: "ys = y0 # zs" by (cases ys) auto
    have nl: "next_of h1 la = hd ys"
      using ring_last_first [OF r1] ring_next_hd [of h1 la "butlast ys"] la ne
      by (simp add: hd_append)
    have "nodeAt h1 (last ys) = vertexAt data (last offs)"
      using m ne one by (metis last_map)
    moreover have "nodeAt h1 (hd ys) = vertexAt data (hd offs)"
      using m ne one by (metis hd_map)
    ultimately have "equals h1 (last ys) (hd ys) \<longleftrightarrow> coincident data (last offs) (hd offs)"
      by (rule equals_nodeAt)
    then have eq: "equals h1 la (next_of h1 la) \<longleftrightarrow> coincident data (last offs) (hd offs)"
      using nl la by simp
    show ?thesis
    proof (cases "equals h1 la (next_of h1 la)")
      case False
      with fin Some have "r = Some la" "h' = h1" by simp_all
      moreover from False eq have "\<not> dropsLast data offs" by (simp add: dropsLast_def)
      ultimately show ?thesis using r1 m la one ys len al
        by (intro conjI impI exI [of _ ys]) (simp_all add: ringOffsets_def)
    next
      case True
      with fin Some have r: "r = Some (next_of (removeNode h1 la) la)" and h': "h' = removeNode h1 la"
        by (auto simp: Let_def)
      show ?thesis
      proof (cases "2 \<le> length ys")
        case False
        with ne have single: "ys = [la]" using la by (cases ys) (auto simp: not_le)
        with r1 have "next_of h1 la = la" "prev_of h1 la = la" by (simp_all add: ring_def)
        then have same: "next_of h' = next_of h1" "prev_of h' = prev_of h1"
          unfolding h' by (auto simp: removeNode_next removeNode_prev fun_eq_iff)
        with r1 have "ring h' ys" by (simp add: ring_def)
        moreover from False len have "\<not> dropsLast data offs" by (simp add: dropsLast_def)
        moreover have "r = Some (last ys)" using r same single \<open>next_of h1 la = la\<close> h' by simp
        ultimately show ?thesis using m one ys len al h'
          by (intro conjI impI exI [of _ ys]) (simp_all add: ringOffsets_def)
      next
        case two: True
        then have bne: "butlast ys \<noteq> []" by (cases ys) (auto split: if_splits)
        from ring_removeNode [OF ring_last_first [OF r1] bne]
        have r': "ring h' (butlast ys)" by (simp add: h' la)
        have "prev_of h1 la = last (butlast ys)"
          using ring_prev_hd [OF ring_last_first [OF r1]] bne la by simp
        moreover have "last (butlast ys) \<noteq> la"
          using d bne la ne
          by (metis append_butlast_last_id distinct_butlast last_in_set not_distinct_conv_prefix
              distinct_append disjoint_iff list.set_intros(1))
        ultimately have "next_of h' la = hd ys"
          unfolding h' by (simp add: removeNode_next nl)
        moreover have "hd (butlast ys) = hd ys" using bne by (cases ys) auto
        ultimately have rr: "r = Some (hd (butlast ys))" using r h' by simp
        from two eq True len have dl: "dropsLast data offs" by (simp add: dropsLast_def)
        have "butlast (map (nodeAt h1) ys) = butlast (map (vertexAt data) offs)"
          using m by simp
        then have mm: "map (nodeAt h') (butlast ys) = map (vertexAt data) (butlast offs)"
          by (simp add: h' map_butlast)
        have "allocated h < allocated h1" using ys ne by simp
        then have "ys = [allocated h ..< allocated h1 - 1] @ [allocated h1 - 1]"
          using ys upt_Suc_append [of "allocated h" "allocated h1 - 1"] by simp
        then have "butlast ys = [allocated h ..< allocated h1 - 1]"
          by (metis butlast_snoc)
        moreover have "allocated h + (allocated h1 - 1 - allocated h) = allocated h1 - 1"
          using \<open>allocated h < allocated h1\<close> by simp
        ultimately have "butlast ys = [allocated h ..< allocated h + length (butlast ys)]"
          by simp
        with r' rr dl mm one al h' show ?thesis
          by (intro conjI impI exI [of _ "butlast ys"]) (simp_all add: ringOffsets_def)
      qed
    qed
  qed
qed


lemma linkedList_up_total:
  assumes "dm \<noteq> 0" and "\<forall>j \<in> set (offsets_up i fin dm). j + 1 < length data"
  shows "\<exists>r h'. linkedList_up data i fin dm lst h = Return (r, h')"
  using assms
proof (induction data i fin dm lst h rule: linkedList_up.induct)
  case (1 data i fin dm lst h)
  show ?case
  proof (cases "i < fin")
    case False
    then show ?thesis by (simp add: linkedList_up.simps)
  next
    case True
    with "1.prems" have o: "offsets_up i fin dm = i # offsets_up (i + dm) fin dm"
      by (simp add: offsets_up.simps [of i])
    with "1.prems" have rd: "i + 1 < length data"
      and rest: "\<forall>j \<in> set (offsets_up (i + dm) fin dm). j + 1 < length data" by simp_all
    obtain p h1 where ins: "insertNode i (data ! i) (data ! (i + 1)) lst h = (p, h1)"
      by (cases "insertNode i (data ! i) (data ! (i + 1)) lst h")
    from "1.IH" [OF True "1.prems"(1) rd ins [symmetric] "1.prems"(1) rest] True "1.prems"(1) rd ins
    show ?thesis by (simp add: linkedList_up.simps [of data i])
  qed
qed

lemma linkedList_down_total:
  assumes "dm \<noteq> 0" and "\<forall>j \<in> set (offsets_down i start dm). j + 1 < length data"
  shows "\<exists>r h'. linkedList_down data i start dm lst h = Return (r, h')"
  using assms
proof (induction data i start dm lst h rule: linkedList_down.induct)
  case (1 data i start dm lst h)
  show ?case
  proof (cases "int start \<le> i")
    case False
    then show ?thesis by (simp add: linkedList_down.simps)
  next
    case True
    with "1.prems" have o: "offsets_down i start dm = nat i # offsets_down (i - int dm) start dm"
      by (simp add: offsets_down.simps [of i])
    with "1.prems" have rd: "nat i + 1 < length data"
      and rest: "\<forall>j \<in> set (offsets_down (i - int dm) start dm). j + 1 < length data" by simp_all
    obtain p h1 where ins: "insertNode (nat i) (data ! nat i) (data ! (nat i + 1)) lst h = (p, h1)"
      by (cases "insertNode (nat i) (data ! nat i) (data ! (nat i + 1)) lst h")
    from "1.IH" [OF True "1.prems"(1) rd ins [symmetric] "1.prems"(1) rest] True "1.prems"(1) rd ins
    show ?thesis by (simp add: linkedList_down.simps [of data i])
  qed
qed

lemma linkedList_total:
  assumes "dm \<noteq> 0"
    and "\<forall>j \<in> set (insertionOrder sa data start fin dm cw ar). j + 1 < length data"
  shows "\<exists>r h'. linkedList sa data start fin dm cw ar h = Return (r, h')"
proof -
  let ?a = "case ar of None \<Rightarrow> sa data start fin dm | Some v \<Rightarrow> v"
  have "\<exists>l h1. (if cw = (?a < 0) then linkedList_up data start fin dm None h
            else linkedList_down data (int fin - int dm) start dm None h) = Return (l, h1)"
    using assms linkedList_up_total [of dm start fin data None h]
      linkedList_down_total [of dm "int fin - int dm" start data None h]
    by (auto simp: insertionOrder_def)
  then obtain l h1 where "(if cw = (?a < 0) then linkedList_up data start fin dm None h
            else linkedList_down data (int fin - int dm) start dm None h) = Return (l, h1)"
    by blast
  then show ?thesis
    by (cases l) (auto simp: linkedList_def Let_def andThen_simps)
qed

lemma offsets_empty_span:
  "fin \<le> start \<Longrightarrow> 0 < dm \<Longrightarrow> insertionOrder sa data start fin dm cw ar = []"
  by (auto simp: insertionOrder_def offsets_up.simps [of start] offsets_down.simps [of "int fin - int dm"])

lemma offsets_up_aligned:
  "0 < dm \<Longrightarrow> j \<le> n \<Longrightarrow>
   offsets_up (start + j * dm) (start + n * dm) dm = map (\<lambda>k. start + k * dm) [j ..< n]"
proof (induction "n - j" arbitrary: j)
  case 0
  then show ?case by (simp add: offsets_up.simps)
next
  case (Suc d)
  then have lt: "j < n" by simp
  with Suc.prems have "start + j * dm < start + n * dm" by simp
  then have "offsets_up (start + j * dm) (start + n * dm) dm
      = (start + j * dm) # offsets_up (start + j * dm + dm) (start + n * dm) dm"
    using Suc.prems(1) by (simp add: offsets_up.simps [of "start + j * dm"])
  also have "start + j * dm + dm = start + Suc j * dm" by simp
  also have "offsets_up (start + Suc j * dm) (start + n * dm) dm
      = map (\<lambda>k. start + k * dm) [Suc j ..< n]"
    using Suc.hyps(1) [of "Suc j"] Suc.hyps(2) Suc.prems(1) lt by simp
  finally show ?case using lt by (simp add: upt_conv_Cons)
qed

lemma offsets_down_aligned:
  "0 < dm \<Longrightarrow>
   offsets_down (int (start + j * dm) - int dm) start dm = rev (map (\<lambda>k. start + k * dm) [0 ..< j])"
proof (induction j)
  case 0
  then show ?case by (simp add: offsets_down.simps)
next
  case (Suc j)
  have "int (start + Suc j * dm) - int dm = int (start + j * dm)" by simp
  moreover have "offsets_down (int (start + j * dm)) start dm
      = (start + j * dm) # offsets_down (int (start + j * dm) - int dm) start dm"
    using Suc.prems by (simp add: offsets_down.simps [of "int (start + j * dm)"] del: of_nat_add of_nat_mult)
  ultimately show ?case using Suc by simp
qed

lemma ring_small:
  assumes "ring h xs" and "length xs \<le> 2" and "p \<in> set xs"
  shows "next_of h p = prev_of h p"
proof -
  from ring_at_head [OF assms(1,3)] obtain ys where
    r: "ring h (p # ys)" and l: "length (p # ys) = length xs" by blast
  from l assms(2) have "length ys \<le> 1" by simp
  then have "ys = [] \<or> (\<exists>q. ys = [q])" by (cases ys) auto
  then show ?thesis using ring_next_hd [OF r] ring_prev_hd [OF r] by auto
qed

section \<open>The ring builder\<close>

text \<open>
  C5: \<open>linkedList(data, start, end, dim, clockwise, area)\<close> returns \<open>undefined\<close> when the
  span is empty. Otherwise it inserts the vertices of the span in forward index order
  exactly when \<open>clockwise === (area < 0)\<close> and in reverse index order otherwise, and then
  drops the last inserted node if it coincides with the first. Here \<open>dim\<close> is positive
  and every vertex the loop visits lies inside the array; the result is a ring holding the
  offsets and coordinates of the visited vertices in the order of insertion, and the
  returned node is its last node, or its first when the duplicate was dropped. For a span
  of \<open>n\<close> whole vertices the two orders are \<open>start, start + dim, ...\<close> and its reverse.
\<close>

theorem linkedList_ring_order:
  fixes sa data start fin dm clockwise ar h
  defines "offs \<equiv> (if clockwise = ((case ar of None \<Rightarrow> sa data start fin dm | Some v \<Rightarrow> v) < 0)
                     then offsets_up start fin dm
                     else offsets_down (int fin - int dm) start dm)"
  assumes dm: "0 < dm" and reads: "\<forall>j \<in> set offs. j + 1 < length data"
  shows "(fin \<le> start \<longrightarrow> offs = []) \<and>
         (\<exists>r h'. linkedList sa data start fin dm clockwise ar h = Return (r, h') \<and>
            (offs = [] \<longrightarrow> r = None) \<and>
            (offs \<noteq> [] \<longrightarrow>
               (\<exists>xs. ring h' xs \<and>
                  map (nodeAt h') xs = map (vertexAt data) (ringOffsets data offs) \<and>
                  r = Some (if dropsLast data offs then hd xs else last xs)))) \<and>
         (\<forall>n. fin = start + n * dm \<longrightarrow>
            offsets_up start fin dm = map (\<lambda>k. start + k * dm) [0 ..< n] \<and>
            offsets_down (int fin - int dm) start dm = rev (map (\<lambda>k. start + k * dm) [0 ..< n]))"
proof (intro conjI allI impI)
  have io: "insertionOrder sa data start fin dm clockwise ar = offs"
    by (simp add: insertionOrder_def offs_def)
  show "offs = []" if "fin \<le> start"
    using offsets_empty_span [OF that dm, of sa data clockwise ar] io by simp
  from linkedList_total [of dm sa data start fin clockwise ar h] dm reads io
  obtain r h' where run: "linkedList sa data start fin dm clockwise ar h = Return (r, h')" by auto
  from linkedList_ring [OF run] io
  show "\<exists>r h'. linkedList sa data start fin dm clockwise ar h = Return (r, h') \<and>
            (offs = [] \<longrightarrow> r = None) \<and>
            (offs \<noteq> [] \<longrightarrow>
               (\<exists>xs. ring h' xs \<and>
                  map (nodeAt h') xs = map (vertexAt data) (ringOffsets data offs) \<and>
                  r = Some (if dropsLast data offs then hd xs else last xs)))"
    using run by (intro exI [of _ r] exI [of _ h']) auto
  show "offsets_up start fin dm = map (\<lambda>k. start + k * dm) [0 ..< n]" if "fin = start + n * dm" for n
    using offsets_up_aligned [OF dm, of 0 n start] that by simp
  show "offsets_down (int fin - int dm) start dm = rev (map (\<lambda>k. start + k * dm) [0 ..< n])"
    if "fin = start + n * dm" for n
    using offsets_down_aligned [OF dm, of start n] that by simp
qed

lemmas ring_eval = linkedList_def linkedList_up.simps linkedList_down.simps getPolygonSignedArea_def
  getPolygonSignedArea_loop.simps equals_def removeNode_def insertNode_def Node_def empty_heap_def
  andThen_simps Let_def

lemma square_ring:
  "linkedList getPolygonSignedArea [0, 0, 10, 0, 10, 10, 0, 10] 0 8 2 True None empty_heap
     = Return (Some 3, snd (builtRing [0, 0, 10, 0, 10, 10, 0, 10] 2))"
  by (simp add: builtRing_def ring_eval cong: eval_congs)

text \<open>The square is inserted forwards and nothing is dropped.\<close>

theorem linkedList_ring_order_witness:
  "(0 :: nat) < 2 \<and>
   offsets_up 0 8 2 = [0, 2, 4, 6] \<and>
   (\<exists>r h'. linkedList getPolygonSignedArea [0, 0, 10, 0, 10, 10, 0, 10] 0 8 2 True None empty_heap
              = Return (r, h') \<and>
      (\<exists>xs. ring h' xs \<and>
         map (nodeAt h') xs = [(0, 0, 0), (2, 10, 0), (4, 10, 10), (6, 0, 10)] \<and>
         r = Some (last xs)))"
proof -
  let ?d = "[0, 0, 10, 0, 10, 10, 0, 10] :: rat list"
  have a: "getPolygonSignedArea ?d 0 8 2 < 0"
    by (simp add: getPolygonSignedArea_def getPolygonSignedArea_loop.simps cong: if_weak_cong)
  have o: "offsets_up 0 8 2 = [0, 2, 4, 6]"
    by (simp add: offsets_up.simps cong: if_weak_cong)
  have nd: "\<not> dropsLast ?d [0, 2, 4, 6]" by (simp add: dropsLast_def coincident_def)
  from linkedList_ring_order [where dm = 2 and clockwise = True and ar = None
      and sa = getPolygonSignedArea and data = ?d and start = 0 and fin = 8 and h = empty_heap] a o nd
  show ?thesis by (simp add: ringOffsets_def vertexAt_def)
qed






section \<open>Degenerate input\<close>

text \<open>
  C4: \<open>earcut\<close> returns an empty sequence for degenerate input. Whenever the outer span
  gives no node (it is empty) or fewer than three nodes are left in the outer ring after
  the duplicate removal of \<open>linkedList\<close>, the result is exactly \<open>[]\<close>, whatever the fuel:
  \<open>earcut\<close> sees \<open>outerNode\<close> undefined or \<open>outerNode.next === outerNode.prev\<close> and
  returns before any loop over the ring. Here \<open>dim\<close> is positive and the vertices of the
  outer span lie inside the array.
\<close>

theorem earcut_degenerate:
  fixes sa positions holeIndices dm areas fuel
  defines "fin \<equiv> outerLen positions holeIndices dm"
  defines "offs \<equiv> (if (case areaAt areas 0 of None \<Rightarrow> sa positions 0 fin dm | Some v \<Rightarrow> v) < 0
                     then offsets_up 0 fin dm
                     else offsets_down (int fin - int dm) 0 dm)"
  assumes dm: "0 < dm" and reads: "\<forall>j \<in> set offs. j + 1 < length positions"
    and few: "length (ringOffsets positions offs) < 3"
  shows "earcut fuel sa positions holeIndices dm areas = Return []"
proof -
  have io: "insertionOrder sa positions 0 fin dm True (areaAt areas 0) = offs"
    by (auto simp: insertionOrder_def offs_def)
  from linkedList_total [of dm sa positions 0 fin True "areaAt areas 0" empty_heap] dm reads io
  obtain r h where run: "linkedList sa positions 0 fin dm True (areaAt areas 0) empty_heap = Return (r, h)"
    by auto
  show ?thesis
  proof (cases r)
    case None
    with run show ?thesis by (simp add: earcut_def fin_def andThen_simps)
  next
    case (Some l)
    with linkedList_ring [OF run] io obtain xs where
      r: "ring h xs" and m: "map (nodeAt h) xs = map (vertexAt positions) (ringOffsets positions offs)"
      and l: "l = (if dropsLast positions offs then hd xs else last xs)"
      by auto
    from m have "length xs = length (ringOffsets positions offs)" by (metis length_map)
    with few have "length xs \<le> 2" by simp
    moreover from r l have "l \<in> set xs" by (simp add: ring_def)
    ultimately have "next_of h l = prev_of h l" using r by (metis ring_small)
    with run Some show ?thesis by (simp add: earcut_def fin_def andThen_simps)
  qed
qed

text \<open>Two vertices: the result is empty with no fuel at all.\<close>

theorem earcut_degenerate_witness:
  "(0 :: nat) < 2 \<and>
   length (ringOffsets [0, 0, 10, 0] (offsets_down (int 4 - int 2) 0 2)) < 3 \<and>
   earcut 0 getPolygonSignedArea [0, 0, 10, 0] None 2 None = Return []"
proof -
  let ?d = "[0, 0, 10, 0] :: rat list"
  have fin: "outerLen ?d None 2 = 4" by (simp add: outerLen_def)
  have a: "\<not> getPolygonSignedArea ?d 0 4 2 < 0"
    by (simp add: getPolygonSignedArea_def getPolygonSignedArea_loop.simps cong: if_weak_cong)
  have o: "offsets_down (int 4 - int 2) 0 2 = [2, 0]"
    by (simp add: offsets_down.simps cong: if_weak_cong)
  have offs: "(if (case areaAt None 0 of
                     None \<Rightarrow> getPolygonSignedArea ?d 0 (outerLen ?d None 2) 2
                   | Some v \<Rightarrow> v) < 0
               then offsets_up 0 (outerLen ?d None 2) 2
               else offsets_down (int (outerLen ?d None 2) - int 2) 0 2) = [2, 0]"
    unfolding fin using a o by (simp add: areaAt_def)
  have few: "length (ringOffsets ?d [2, 0]) < 3" by (simp add: ringOffsets_def)
  have "earcut 0 getPolygonSignedArea ?d None 2 None = Return []"
    by (rule earcut_degenerate [where dm = 2 and sa = getPolygonSignedArea and positions = ?d
          and holeIndices = None and areas = None and fuel = 0, unfolded offs])
       (use few in simp_all)
  with few o show ?thesis by simp
qed


lemma ring_nth_next:
  assumes "ring h xs" and "Suc k < length xs"
  shows "next_of h (xs ! k) = xs ! Suc k"
proof -
  from assms have "map (next_of h) xs ! k = rotate1 xs ! k" by (simp add: ring_def)
  with assms(2) show ?thesis by (simp add: nth_rotate1)
qed

lemma isEar_loop_walk:
  assumes r: "ring h xs" and e: "prev_of h ear = last xs"
    and k: "k < length xs" and f: "length xs - k \<le> fuel"
  shows "isEar_loop fuel h ear (xs ! k)
           = Return (\<forall>j. k \<le> j \<and> Suc j < length xs \<longrightarrow> \<not> blocks h ear (xs ! j))"
  using k f
proof (induction "length xs - k" arbitrary: k fuel)
  case 0
  then show ?case by simp
next
  case (Suc d)
  from Suc.prems Suc.hyps(2) obtain n where fuel: "fuel = Suc n" by (cases fuel) auto
  from r have ne: "xs \<noteq> []" and dist: "distinct xs" by (simp_all add: ring_def)
  show ?case
  proof (cases "Suc k < length xs")
    case False
    with Suc.prems have "k = length xs - 1" by simp
    then have "xs ! k = last xs" using ne by (simp add: last_conv_nth)
    moreover have "\<forall>j. k \<le> j \<and> Suc j < length xs \<longrightarrow> \<not> blocks h ear (xs ! j)"
      using False by auto
    ultimately show ?thesis using e fuel by simp
  next
    case True
    then have "xs ! k \<noteq> last xs"
      using dist ne by (simp add: last_conv_nth nth_eq_iff_index_eq)
    moreover have nx: "next_of h (xs ! k) = xs ! Suc k" using r True by (rule ring_nth_next)
    moreover have "isEar_loop n h ear (xs ! Suc k)
        = Return (\<forall>j. Suc k \<le> j \<and> Suc j < length xs \<longrightarrow> \<not> blocks h ear (xs ! j))"
      using Suc.hyps(1) [of "Suc k" n] Suc.hyps(2) Suc.prems fuel True by simp
    moreover have "(\<forall>j. k \<le> j \<and> Suc j < length xs \<longrightarrow> \<not> blocks h ear (xs ! j)) \<longleftrightarrow>
        \<not> blocks h ear (xs ! k) \<and> (\<forall>j. Suc k \<le> j \<and> Suc j < length xs \<longrightarrow> \<not> blocks h ear (xs ! j))"
      using True by (metis Suc_leI le_eq_less_or_eq Suc_leD order_refl)
    ultimately show ?thesis using e fuel by simp
  qed
qed

section \<open>The ear test\<close>

text \<open>
  C6, as amended: on a ring, \<open>isEar(ear)\<close> returns true if and only if
  \<open>area(prev, ear, next) < 0\<close> and no node of the ring other than \<open>prev\<close>, \<open>ear\<close> and
  \<open>next\<close> lies inside or on the boundary of the triangle \<open>(prev, ear, next)\<close> (the
  inclusive test \<open>pointInTriangle\<close>) while having \<open>area(p.prev, p, p.next) \<ge> 0\<close>, that is
  while being reflex or collinear. Fuel as long as the ring is enough.
\<close>

theorem isEar_iff:
  assumes r: "ring h xs" and e: "ear \<in> set xs" and f: "length xs \<le> fuel"
  shows "isEar fuel h ear =
           Return (area h (prev_of h ear) ear (next_of h ear) < 0 \<and>
                   (\<forall>p \<in> set xs. p \<noteq> prev_of h ear \<and> p \<noteq> ear \<and> p \<noteq> next_of h ear \<longrightarrow>
                      \<not> blocks h ear p))"
proof (cases "area h (prev_of h ear) ear (next_of h ear) < 0")
  case False
  then show ?thesis by (simp add: isEar_def)
next
  case True
  from ring_at_head [OF r e] obtain ys where
    ry: "ring h (ear # ys)" and sy: "set (ear # ys) = set xs" and ly: "length (ear # ys) = length xs"
    by blast
  let ?xs = "ear # ys"
  from ry have dist: "distinct ?xs" by (simp add: ring_def)
  have pe: "prev_of h ear = last ?xs" using ry by (rule ring_prev_hd)
  have three: "3 \<le> length ?xs"
  proof (rule ccontr)
    assume "\<not> 3 \<le> length ?xs"
    then have "length ?xs \<le> 2" by simp
    from ring_small [OF ry this, of ear] have "next_of h ear = prev_of h ear" by simp
    with True show False by (simp add: area_def algebra_simps)
  qed
  then obtain y1 y2 zs where ys: "ys = y1 # y2 # zs" 
    by (cases ys; cases "tl ys") auto
  have n1: "next_of h ear = y1" using ring_nth_next [OF ry, of 0] ys by simp
  have n2: "next_of h y1 = ?xs ! 2" using ring_nth_next [OF ry, of 1] ys by simp
  have walk: "isEar_loop fuel h ear (?xs ! 2)
      = Return (\<forall>j. 2 \<le> j \<and> Suc j < length ?xs \<longrightarrow> \<not> blocks h ear (?xs ! j))"
    by (rule isEar_loop_walk [OF ry pe]) (use three f ly in auto)
  have "(\<forall>j. 2 \<le> j \<and> Suc j < length ?xs \<longrightarrow> \<not> blocks h ear (?xs ! j)) \<longleftrightarrow>
        (\<forall>p \<in> set ?xs. p \<noteq> prev_of h ear \<and> p \<noteq> ear \<and> p \<noteq> next_of h ear \<longrightarrow> \<not> blocks h ear p)"
    (is "?L \<longleftrightarrow> ?R")
  proof
    assume L: ?L
    show ?R
    proof (intro ballI impI)
      fix p assume p: "p \<in> set ?xs" "p \<noteq> prev_of h ear \<and> p \<noteq> ear \<and> p \<noteq> next_of h ear"
      then obtain j where j: "j < length ?xs" "?xs ! j = p" by (metis in_set_conv_nth)
      have "j \<noteq> 0" using j(2) p(2) by (cases j) auto
      moreover have "j \<noteq> 1" using j(2) p(2) n1 ys by auto
      moreover from p(2) pe j have "Suc j \<noteq> length ?xs"
        by (metis diff_Suc_1 last_conv_nth list.distinct(1))
      ultimately have "2 \<le> j \<and> Suc j < length ?xs" using j(1) by linarith
      with L j show "\<not> blocks h ear p" by blast
    qed
  next
    assume R: ?R
    show ?L
    proof (intro allI impI)
      fix j assume j: "2 \<le> j \<and> Suc j < length ?xs"
      then have jl: "j < length ?xs" by simp
      then have mem: "?xs ! j \<in> set ?xs" by (rule nth_mem)
      have neq: "?xs ! j \<noteq> ?xs ! i" if "i < length ?xs" "i \<noteq> j" for i
        using dist jl that by (simp add: nth_eq_iff_index_eq)
      have "?xs ! j \<noteq> ?xs ! 0" by (rule neq) (use j in simp_all)
      moreover have "?xs ! j \<noteq> ?xs ! 1" by (rule neq) (use j in auto)
      moreover have "?xs ! j \<noteq> ?xs ! (length ?xs - 1)" by (rule neq) (use j in simp_all)
      moreover have "last ?xs = ?xs ! (length ?xs - 1)" by (rule last_conv_nth) simp
      ultimately have "?xs ! j \<noteq> prev_of h ear \<and> ?xs ! j \<noteq> ear \<and> ?xs ! j \<noteq> next_of h ear"
        using pe n1 ys by simp
      with R mem show "\<not> blocks h ear (?xs ! j)" by blast
    qed
  qed
  with walk True n1 n2 sy show ?thesis by (simp add: isEar_def)
qed

text \<open>
  A triangle with a fourth vertex, \<open>(5, 5)\<close>, in the middle of its longest side: the ring
  is made of the nodes 0 to 3.
\<close>

lemma midpoint_ring:
  "linkedList getPolygonSignedArea [0, 0, 10, 0, 5, 5, 0, 10] 0 8 2 True None empty_heap
     = Return (Some 3, snd (builtRing [0, 0, 10, 0, 5, 5, 0, 10] 2))"
  by (simp add: builtRing_def ring_eval cong: eval_congs)

lemma midpoint_ring_is_ring: "ring (snd (builtRing [0, 0, 10, 0, 5, 5, 0, 10] 2)) [0, 1, 2, 3]"
  by (simp add: builtRing_def ring_eval ring_def cong: eval_congs)

theorem isEar_iff_witness:
  "ring (snd (builtRing [0, 0, 10, 0, 5, 5, 0, 10] 2)) [0, 1, 2, 3] \<and> (0 :: nat) \<in> set [0, 1, 2, 3] \<and>
   length [0, 1, 2, 3 :: nat] \<le> 4 \<and>
   isEar 4 (snd (builtRing [0, 0, 10, 0, 5, 5, 0, 10] 2)) 0 = Return False"
proof -
  have "blocks (snd (builtRing [0, 0, 10, 0, 5, 5, 0, 10] 2)) 0 2"
    by (simp add: builtRing_def ring_eval blocks_def pointInTriangle_def area_def cong: eval_congs)
  moreover have "prev_of (snd (builtRing [0, 0, 10, 0, 5, 5, 0, 10] 2)) 0 = 3"
    "next_of (snd (builtRing [0, 0, 10, 0, 5, 5, 0, 10] 2)) 0 = 1"
    by (simp_all add: builtRing_def ring_eval cong: eval_congs)
  ultimately show ?thesis
    using isEar_iff [OF midpoint_ring_is_ring, of 0 4] midpoint_ring_is_ring by auto
qed

text \<open>
  C6 as stated fails there. At node 0 the turn is convex and no vertex lies strictly inside
  the triangle of nodes 3, 0 and 1, so the spec's test holds; but node 2 lies on the side
  from node 1 to node 3 with a zero area of its own, and \<open>isEar\<close> returns false.
\<close>

theorem isEar_boundary_counterexample:
  "ring (snd (builtRing [0, 0, 10, 0, 5, 5, 0, 10] 2)) [0, 1, 2, 3] \<and>
   isEar fuel8 (snd (builtRing [0, 0, 10, 0, 5, 5, 0, 10] 2)) 0 = Return False \<and>
   claimedEar (snd (builtRing [0, 0, 10, 0, 5, 5, 0, 10] 2)) [0, 1, 2, 3] 0"
  using midpoint_ring_is_ring
  by (simp add: builtRing_def ring_eval isEar_def blocks_def pointInTriangle_def area_def
      claimedEar_def strictlyInside_def cong: eval_congs)

end
